theory Spec2Isabelle
  imports Main "HOL-Library.Word"
begin

unbundle bit_operations_syntax

section \<open>Constants of the platform and of the collaborating headers\<close>

text \<open>
  The values of \<^verbatim>\<open>errno.h\<close> that the two source files compare against
  (\<^verbatim>\<open>asm-generic/errno-base.h\<close>: EIO 5, EAGAIN 11, EBUSY 16).
\<close>

definition EIO :: int where "EIO = 5"
definition EAGAIN :: int where "EAGAIN = 11"
definition EBUSY :: int where "EBUSY = 16"

text \<open>
  \<^verbatim>\<open>libznd.h\<close> is not among the source files: the enumerators that
  \<^verbatim>\<open>xnvme_fioe_report_zones\<close> switches on are taken as a parameter, a record
  holding the value of each enumerator.  The raw zone type and zone state of a descriptor are
  small unsigned fields of the report entry.
\<close>

record znd_enum =
  ZND_TYPE_SEQWR :: "8 word"
  ZND_STATE_EMPTY :: "8 word"
  ZND_STATE_IOPEN :: "8 word"
  ZND_STATE_EOPEN :: "8 word"
  ZND_STATE_CLOSED :: "8 word"
  ZND_STATE_FULL :: "8 word"
  ZND_STATE_RONLY :: "8 word"
  ZND_STATE_OFFLINE :: "8 word"

text \<open>The enumerators of one C enum that label the cases of one switch are distinct.\<close>

definition znd_states :: "znd_enum \<Rightarrow> 8 word list" where
  "znd_states k = [ZND_STATE_EMPTY k, ZND_STATE_IOPEN k, ZND_STATE_EOPEN k,
     ZND_STATE_CLOSED k, ZND_STATE_FULL k, ZND_STATE_RONLY k, ZND_STATE_OFFLINE k]"

text \<open>The values the NVMe Zoned Namespace command set gives these enumerators.\<close>

definition zns_enum :: znd_enum where
  "zns_enum = \<lparr>ZND_TYPE_SEQWR = 0x2, ZND_STATE_EMPTY = 0x1, ZND_STATE_IOPEN = 0x2,
     ZND_STATE_EOPEN = 0x3, ZND_STATE_CLOSED = 0x4, ZND_STATE_FULL = 0xE,
     ZND_STATE_RONLY = 0xD, ZND_STATE_OFFLINE = 0xF\<rparr>"

section \<open>The fio engine: zone report\<close>

text \<open>The fields of \<^verbatim>\<open>struct znd_descr\<close> that the engine reads.\<close>

record znd_descr =
  zt :: "8 word"
  zs :: "8 word"
  zcap :: "64 word"
  zslba :: "64 word"
  wp :: "64 word"

text \<open>
  A zone report: the number of entries and the entries, read by index as
  \<^verbatim>\<open>ZND_REPORT_DESCR(rprt, idx)\<close> does.
\<close>

record znd_report =
  nentries :: "32 word"
  descr :: "nat \<Rightarrow> znd_descr"

text \<open>fio's \<^verbatim>\<open>struct zbd_zone\<close> with its two enums (\<^verbatim>\<open>zbd_types.h\<close>).\<close>

datatype zbd_zone_type = ZBD_ZONE_TYPE_CNV | ZBD_ZONE_TYPE_SWR | ZBD_ZONE_TYPE_SWP

datatype zbd_zone_cond =
    ZBD_ZONE_COND_NOT_WP
  | ZBD_ZONE_COND_EMPTY
  | ZBD_ZONE_COND_IMP_OPEN
  | ZBD_ZONE_COND_EXP_OPEN
  | ZBD_ZONE_COND_CLOSED
  | ZBD_ZONE_COND_READONLY
  | ZBD_ZONE_COND_FULL
  | ZBD_ZONE_COND_OFFLINE

record zbd_zone =
  start :: "64 word"
  wp :: "64 word"
  len :: "64 word"
  type :: zbd_zone_type
  cond :: zbd_zone_cond

text \<open>
  What \<^verbatim>\<open>xnvme_fioe_report_zones\<close> asks of the device it opens by name: the geometry,
  the sector shift, and the zone report for a start LBA and a count
  (\<^verbatim>\<open>znd_report_from_dev\<close>, which on failure returns no report and leaves a value in
  \<^verbatim>\<open>errno\<close>).
\<close>

record zdev =
  nsect :: "64 word"
  tbytes :: "64 word"
  ssw :: "32 word"
  report_from_dev :: "64 word \<Rightarrow> 32 word \<Rightarrow> znd_report option"
  errno :: int

text \<open>
  \<^verbatim>\<open>switch (descr->zs)\<close>, lines 731 to 753: five states have a case of their own; the
  cases of read-only and offline share their statement with \<^verbatim>\<open>default\<close>.
\<close>

definition zs_cond :: "znd_enum \<Rightarrow> 8 word \<Rightarrow> zbd_zone_cond" where
  "zs_cond k s =
     (if s = ZND_STATE_EMPTY k then ZBD_ZONE_COND_EMPTY
      else if s = ZND_STATE_IOPEN k then ZBD_ZONE_COND_IMP_OPEN
      else if s = ZND_STATE_EOPEN k then ZBD_ZONE_COND_EXP_OPEN
      else if s = ZND_STATE_CLOSED k then ZBD_ZONE_COND_CLOSED
      else if s = ZND_STATE_FULL k then ZBD_ZONE_COND_FULL
      else ZBD_ZONE_COND_OFFLINE)"

text \<open>
  The body of the transforming loop for one entry.  The three addresses are stored first; an
  entry whose type is not sequential-write-required sets \<^verbatim>\<open>err = -EIO\<close> and leaves
  the loop (\<open>Inl\<close>, with the zone as it was left), otherwise type and condition are stored.
\<close>

definition transform_descr :: "znd_enum \<Rightarrow> 32 word \<Rightarrow> znd_descr \<Rightarrow> zbd_zone \<Rightarrow> zbd_zone + zbd_zone" where
  "transform_descr k sh d z =
     (let z1 = z\<lparr>start := push_bit (unat sh) (zslba d),
                  len := push_bit (unat sh) (zcap d),
                  wp := push_bit (unat sh) (znd_descr.wp d)\<rparr>
      in if zt d = ZND_TYPE_SEQWR k
         then Inr (z1\<lparr>type := ZBD_ZONE_TYPE_SWR, cond := zs_cond k (zs d)\<rparr>)
         else Inl z1)"

text \<open>
  \<^verbatim>\<open>for (uint32_t idx = 0; idx < rprt->nentries; ++idx)\<close>: the result is the value
  of \<^verbatim>\<open>err\<close> at the label \<^verbatim>\<open>exit\<close> and the caller's array \<^verbatim>\<open>zbdz\<close>.
\<close>

function transform :: "znd_enum \<Rightarrow> 32 word \<Rightarrow> znd_report \<Rightarrow> nat \<Rightarrow> (nat \<Rightarrow> zbd_zone) \<Rightarrow> int \<times> (nat \<Rightarrow> zbd_zone)" where
  "transform k sh rprt idx zbdz =
     (if idx < unat (nentries rprt)
      then (case transform_descr k sh (descr rprt idx) (zbdz idx) of
              Inl z \<Rightarrow> (- EIO, zbdz(idx := z))
            | Inr z \<Rightarrow> transform k sh rprt (Suc idx) (zbdz(idx := z)))
      else (0, zbdz))"
  by pat_completeness auto
termination
  by (relation "measure (\<lambda>(k, sh, rprt, idx, zbdz). unat (nentries rprt) - idx)") auto

declare transform.simps [simp del]

text \<open>
  \<^verbatim>\<open>slba = ((offset >> ssw) / geo->nsect) * geo->nsect\<close> in 64-bit unsigned
  arithmetic (\<^verbatim>\<open>offset\<close> is a \<^verbatim>\<open>uint64_t\<close>; the number of sectors in a zone is
  taken at that width).
\<close>

definition report_slba :: "zdev \<Rightarrow> 64 word \<Rightarrow> 64 word" where
  "report_slba d offset = (drop_bit (unat (ssw d)) offset div nsect d) * nsect d"

text \<open>
  \<^verbatim>\<open>xnvme_fioe_report_zones\<close> up to the label \<^verbatim>\<open>exit\<close>: the value of
  \<^verbatim>\<open>err\<close> there and the caller's array.  The device is \<open>None\<close> when
  \<^verbatim>\<open>xnvme_dev_open\<close> fails.  The division by \<^verbatim>\<open>geo->nsect\<close> traps when
  that is zero: the result is \<open>None\<close>.
\<close>

definition report_zones_err :: "znd_enum \<Rightarrow> zdev option \<Rightarrow> 64 word \<Rightarrow> (nat \<Rightarrow> zbd_zone) \<Rightarrow> 32 word \<Rightarrow> (int \<times> (nat \<Rightarrow> zbd_zone)) option" where
  "report_zones_err k dev offset zbdz nr_zones =
     (case dev of
        None \<Rightarrow> Some (0, zbdz)
      | Some d \<Rightarrow>
          if nsect d = 0 then None
          else
            let slba = report_slba d offset
            in (case report_from_dev d slba nr_zones of
                  None \<Rightarrow> Some (- errno d, zbdz)
                | Some rprt \<Rightarrow>
                    if nentries rprt \<noteq> nr_zones then Some (1, zbdz)
                    else if offset > tbytes d then Some (0, zbdz)
                    else Some (transform k (ssw d) rprt 0 zbdz)))"

text \<open>\<^verbatim>\<open>return err ? err : (int)nr_zones;\<close>\<close>

definition xnvme_fioe_report_zones :: "znd_enum \<Rightarrow> zdev option \<Rightarrow> 64 word \<Rightarrow> (nat \<Rightarrow> zbd_zone) \<Rightarrow> 32 word \<Rightarrow> (int \<times> (nat \<Rightarrow> zbd_zone)) option" where
  "xnvme_fioe_report_zones k dev offset zbdz nr_zones =
     map_option (\<lambda>(err, z). (if err \<noteq> 0 then err else sint nr_zones, z))
       (report_zones_err k dev offset zbdz nr_zones)"

text \<open>The entries with index from \<open>lo\<close> up to \<open>hi\<close> (exclusive) are all of the
  sequential-write-required type, the only type the engine accepts.\<close>

definition seqwr_upto :: "znd_enum \<Rightarrow> znd_report \<Rightarrow> nat \<Rightarrow> nat \<Rightarrow> bool" where
  "seqwr_upto k rprt lo hi = (\<forall>i \<in> {lo..<hi}. zt (descr rprt i) = ZND_TYPE_SEQWR k)"


text \<open>A device with zones of four sectors of 512 bytes, and reports on it, for the examples.\<close>

definition zone0 :: zbd_zone where
  "zone0 = \<lparr>start = 0, wp = 0, len = 0, type = ZBD_ZONE_TYPE_CNV, cond = ZBD_ZONE_COND_NOT_WP\<rparr>"

definition zones0 :: "nat \<Rightarrow> zbd_zone" where
  "zones0 i = zone0"

definition descr_of :: "8 word \<Rightarrow> 8 word \<Rightarrow> 64 word \<Rightarrow> znd_descr" where
  "descr_of t s lba = \<lparr>zt = t, zs = s, zcap = 4, zslba = lba, wp = lba\<rparr>"

definition rprt_ex :: "8 word list \<Rightarrow> znd_report" where
  "rprt_ex ss = \<lparr>nentries = of_nat (length ss),
     descr = (\<lambda>i. if i < length ss then descr_of 2 (ss ! i) (4 * of_nat i) else descr_of 0 0 0)\<rparr>"

definition zdev_ex :: "znd_report \<Rightarrow> zdev" where
  "zdev_ex r = \<lparr>nsect = 4, tbytes = 0x100000, ssw = 9, report_from_dev = (\<lambda>slba n. Some r), errno = 0\<rparr>"

text \<open>A device on which the report request fails, with \<^verbatim>\<open>errno\<close> left at \<^verbatim>\<open>EIO\<close>.\<close>

definition zdev_fail :: zdev where
  "zdev_fail = \<lparr>nsect = 4, tbytes = 0x100000, ssw = 9, report_from_dev = (\<lambda>slba n. None), errno = 5\<rparr>"


section \<open>The fio engine: resetting write pointers\<close>

text \<open>
  The device answers a synchronous zone-management command with the return value of
  \<^verbatim>\<open>znd_cmd_mgmt_send\<close> and the completion status left in the request.  The answer
  may depend on how many commands were sent before: the device is a function of the number of
  the command and of the zone start LBA.
\<close>

type_synonym mgmt_dev = "nat \<Rightarrow> 64 word \<Rightarrow> int \<times> 16 word"

text \<open>
  \<^verbatim>\<open>for (uint64_t zslba = first; zslba <= last; zslba += fwrap->geo->nsect)\<close> of
  \<^verbatim>\<open>xnvme_fioe_reset_wp\<close>, lines 787 to 796.  The result is the value of
  \<^verbatim>\<open>err\<close> at the exit and the zone start LBAs of the reset commands sent, in the
  order they were sent.  The addition wraps at 64 bits, so the loop is not known to end: it is
  a partial function, \<open>None\<close> where it runs forever.
\<close>

partial_function (option) reset_wp_loop :: "mgmt_dev \<Rightarrow> 64 word \<Rightarrow> 64 word \<Rightarrow> 64 word \<Rightarrow> 64 word list \<Rightarrow> (int \<times> 64 word list) option" where
  "reset_wp_loop send nsct last_zslba lba sent =
     (if lba \<le> last_zslba
      then (if fst (send (length sent) lba) \<noteq> 0 \<or> snd (send (length sent) lba) \<noteq> 0
            then Some (if fst (send (length sent) lba) \<noteq> 0
                       then fst (send (length sent) lba) else - EIO, sent @ [lba])
            else reset_wp_loop send nsct last_zslba (lba + nsct) (sent @ [lba]))
      else Some (0, sent))"

text \<open>
  \<^verbatim>\<open>xnvme_fioe_reset_wp\<close>: \<open>sh\<close> is \<^verbatim>\<open>fwrap->ssw\<close> and \<open>ns\<close> is
  \<^verbatim>\<open>fwrap->geo->nsect\<close>, taken at the width of the 64-bit arithmetic it enters.  The
  division traps when \<open>ns\<close> is zero (\<open>None\<close>).  The two assertions on the file wrapper at
  the head of the function hold of an opened file and are left out.
\<close>

definition xnvme_fioe_reset_wp :: "mgmt_dev \<Rightarrow> 32 word \<Rightarrow> 64 word \<Rightarrow> 64 word \<Rightarrow> 64 word \<Rightarrow> (int \<times> 64 word list) option" where
  "xnvme_fioe_reset_wp send sh ns offset length_bytes =
     (if ns = 0 then None
      else
        let first_zslba = (drop_bit (unat sh) offset div ns) * ns;
            last_zslba = (drop_bit (unat sh) (offset + length_bytes) div ns) * ns
        in reset_wp_loop send ns last_zslba first_zslba [])"

text \<open>
  The zones that overlap the byte range from \<open>offset\<close> up to \<open>offset + length_bytes\<close>
  (exclusive), by their start LBA, in ascending order: zone \<open>i\<close> covers the bytes from
  \<open>i * zone_bytes\<close> up to \<open>(i + 1) * zone_bytes\<close>, with a zone of \<open>ns\<close> sectors of
  \<open>2 ^ sh\<close> bytes.  This is the set of zones the interface names, stated over the natural
  numbers, to compare the loop with.
\<close>

definition overlapping_zones :: "nat \<Rightarrow> nat \<Rightarrow> nat \<Rightarrow> nat \<Rightarrow> nat list" where
  "overlapping_zones sh ns offset length_bytes =
     (let zone_bytes = ns * 2 ^ sh
      in map (\<lambda>i. i * ns)
           (filter (\<lambda>i. i * zone_bytes < offset + length_bytes \<and> offset < (i + 1) * zone_bytes)
              [0 ..< (offset + length_bytes) div zone_bytes + 1]))"

text \<open>A device that accepts every reset, and one that fails the second command.\<close>

definition mgmt_ok :: mgmt_dev where
  "mgmt_ok n lba = (0, 0)"

definition mgmt_fail_second :: mgmt_dev where
  "mgmt_fail_second n lba = (if n = 1 then (0, 1) else (0, 0))"

section \<open>The fio engine: the state\<close>

text \<open>
  How a call of the engine ends: it returns, or an \<^verbatim>\<open>assert\<close> fails (when the engine
  is built with assertions, that is without \<^verbatim>\<open>NDEBUG\<close>), or the machine traps on a
  null pointer or a division by zero.
\<close>

datatype 'a outcome = Return 'a | Assert_failed | Trap

text \<open>
  The memory the engine works on.  Request handles and I/O units are objects behind pointers:
  both are named by a number, and the fields of theirs that the engine reads or writes are
  functions of that number.  The first six fields are those of
  \<^verbatim>\<open>struct xnvme_fioe_data\<close>; a file wrapper \<^verbatim>\<open>files[i]\<close> is named by its
  index \<open>i\<close>.
\<close>

record engine =
  iocq :: "nat \<Rightarrow> nat"  \<comment> \<open>\<^verbatim>\<open>xd->iocq[n]\<close>, an I/O unit\<close>
  completed :: nat
  ecount :: nat
  prev :: int
  cur :: int
  nallocated :: nat
  head :: "nat \<Rightarrow> nat list"  \<comment> \<open>\<^verbatim>\<open>files[i].reqs->head\<close>, the free list, first element first\<close>
  f_ssw :: "nat \<Rightarrow> 32 word"  \<comment> \<open>\<^verbatim>\<open>files[i].ssw\<close>\<close>
  f_lba_nbytes :: "nat \<Rightarrow> 32 word"  \<comment> \<open>\<^verbatim>\<open>files[i].lba_nbytes\<close>\<close>
  pool :: "nat \<Rightarrow> nat"  \<comment> \<open>\<^verbatim>\<open>req->pool\<close>, as the index of the file whose pool it is\<close>
  cb_arg :: "nat \<Rightarrow> nat"  \<comment> \<open>\<^verbatim>\<open>req->async.cb_arg\<close>, an I/O unit\<close>
  error :: "nat \<Rightarrow> int"  \<comment> \<open>\<^verbatim>\<open>io_u->error\<close>\<close>

text \<open>\<^verbatim>\<open>SLIST_INSERT_HEAD(&req->pool->head, req, link)\<close>\<close>

definition insert_head :: "engine \<Rightarrow> nat \<Rightarrow> engine" where
  "insert_head xd req = xd\<lparr>head := (head xd)(pool xd req := req # head xd (pool xd req))\<rparr>"

text \<open>
  \<^verbatim>\<open>cb_pool\<close> of the engine, lines 166 to 180, called by the library for a completed
  request; \<open>status\<close> is \<^verbatim>\<open>xnvme_req_cpl_status(req)\<close>.
\<close>

definition cb_pool :: "engine \<Rightarrow> nat \<times> 16 word \<Rightarrow> engine" where
  "cb_pool xd c =
     (let req = fst c; status = snd c; io = cb_arg xd req;
          xd1 = (if status \<noteq> 0
                 then xd\<lparr>ecount := ecount xd + 1, error := (error xd)(io := EIO)\<rparr>
                 else xd);
          xd2 = xd1\<lparr>iocq := (iocq xd1)(completed xd1 := io), completed := completed xd1 + 1\<rparr>
      in insert_head xd2 req)"

section \<open>The fio engine: queueing an I/O unit\<close>

datatype fio_ddir = DDIR_READ | DDIR_WRITE | DDIR_TRIM | DDIR_SYNC







section \<open>The fio engine: harvesting completions\<close>

text \<open>
  The library's answer to \<^verbatim>\<open>xnvme_async_poke\<close>: for the number of the call within one
  \<^verbatim>\<open>xnvme_fioe_getevents\<close>, the file polled and the argument \<^verbatim>\<open>max\<close>, the return
  value and the completions for which it calls \<^verbatim>\<open>cb_pool\<close> before it returns, each a
  request handle with its completion status.
\<close>

type_synonym poke_dev = "nat \<Rightarrow> nat \<Rightarrow> 32 word \<Rightarrow> int \<times> (nat \<times> 16 word) list"

text \<open>
  The variables of \<^verbatim>\<open>xnvme_fioe_getevents\<close>: the engine data, \<^verbatim>\<open>err\<close>, whether
  \<^verbatim>\<open>fwrap\<close> is still \<^verbatim>\<open>NULL\<close>, and the calls of \<^verbatim>\<open>xnvme_async_poke\<close> made
  so far, each with the file polled and the argument \<^verbatim>\<open>max\<close>.
\<close>

record gev =
  g_xd :: engine
  g_err :: int
  g_fwrap_null :: bool
  g_pokes :: "(nat \<times> 32 word) list"

text \<open>
  Lines 443 to 446, the head of \<^verbatim>\<open>for (; ;)\<close>: back to the first file when there is
  no current one or the last one has been passed.
\<close>

definition first_file :: "gev \<Rightarrow> gev" where
  "first_file s =
     (if g_fwrap_null s \<or> cur (g_xd s) = int (nallocated (g_xd s))
      then s\<lparr>g_xd := (g_xd s)\<lparr>cur := 0\<rparr>, g_fwrap_null := False\<rparr>
      else s)"

text \<open>
  Lines 449 and 450: the call \<^verbatim>\<open>xnvme_async_poke(fwrap->dev, fwrap->ctx, max - xd->completed)\<close>
  with the callbacks it runs.
\<close>

definition poke_file :: "poke_dev \<Rightarrow> 32 word \<Rightarrow> gev \<Rightarrow> gev" where
  "poke_file dev mx s =
     (let f = nat (cur (g_xd s));
          m = mx - of_nat (completed (g_xd s));
          r = dev (length (g_pokes s)) f m
      in s\<lparr>g_xd := foldl cb_pool (g_xd s) (snd r), g_err := fst r,
            g_pokes := g_pokes s @ [(f, m)]\<rparr>)"

text \<open>Lines 468 and 469: \<^verbatim>\<open>xd->cur++\<close>, on to the next file.\<close>

definition next_file :: "gev \<Rightarrow> gev" where
  "next_file s = s\<lparr>g_xd := (g_xd s)\<lparr>cur := cur (g_xd s) + 1\<rparr>\<rparr>"

text \<open>
  A poke result that is neither a count nor a transient busy signal: the \<^verbatim>\<open>default\<close>
  case of the switch at line 452.
\<close>

definition poke_failed :: "int \<Rightarrow> bool" where
  "poke_failed e = (e < 0 \<and> e \<noteq> - EBUSY \<and> e \<noteq> - EAGAIN)"

text \<open>
  The inner \<^verbatim>\<open>while\<close> loop, lines 448 to 479.  \<open>Inl\<close> is a \<^verbatim>\<open>return\<close> from
  within the loop, with the value returned and the variables at that point; \<open>Inr\<close> is the
  loop left through its condition.  A negative \<^verbatim>\<open>xd->cur\<close> indexes
  \<^verbatim>\<open>files\<close> out of bounds.
\<close>

function poll_files :: "bool \<Rightarrow> poke_dev \<Rightarrow> 32 word \<Rightarrow> 32 word \<Rightarrow> gev \<Rightarrow> (int \<times> gev) outcome + gev" where
  "poll_files ndebug dev mn mx s =
     (if \<not> g_fwrap_null s \<and> cur (g_xd s) < int (nallocated (g_xd s)) \<and> 0 \<le> g_err s
      then
        if cur (g_xd s) < 0 then Inl Trap
        else
          let s1 = poke_file dev mx s in
          if poke_failed (g_err s1)
          then Inl (if ndebug then Return (0, s1) else Assert_failed)
          else if unat mn \<le> completed (g_xd s1)
          then Inl (Return (int (completed (g_xd s1)),
                            s1\<lparr>g_xd := (g_xd s1)\<lparr>prev := cur (g_xd s1)\<rparr>\<rparr>))
          else poll_files ndebug dev mn mx (next_file s1)
      else Inr s)"
  by pat_completeness auto

text \<open>
  The inner loop ends: the callbacks leave \<^verbatim>\<open>xd->cur\<close> and
  \<^verbatim>\<open>xd->nallocated\<close> alone, and every turn that does not return increments
  \<^verbatim>\<open>xd->cur\<close>.
\<close>

termination poll_files
proof (relation "measure (\<lambda>(ndebug, dev, mn, mx, s). nat (int (nallocated (g_xd s)) - cur (g_xd s)))")
  show "wf (measure (\<lambda>(ndebug, dev, mn, mx, s). nat (int (nallocated (g_xd s)) - cur (g_xd s))))"
    by simp
next
  fix ndebug :: bool and dev :: poke_dev and mn mx :: "32 word" and s x :: gev
  assume c: "\<not> g_fwrap_null s \<and> cur (g_xd s) < int (nallocated (g_xd s)) \<and> 0 \<le> g_err s"
    and x: "x = poke_file dev mx s"
  have "cur (foldl cb_pool y cs) = cur y \<and> nallocated (foldl cb_pool y cs) = nallocated y" for y cs
    by (induction cs arbitrary: y) (simp_all add: cb_pool_def Let_def insert_head_def)
  then have "cur (g_xd x) = cur (g_xd s)" "nallocated (g_xd x) = nallocated (g_xd s)"
    by (simp_all add: x poke_file_def Let_def)
  with c show "((ndebug, dev, mn, mx, next_file x), ndebug, dev, mn, mx, s)
      \<in> measure (\<lambda>(ndebug, dev, mn, mx, s). nat (int (nallocated (g_xd s)) - cur (g_xd s)))"
    by (simp add: next_file_def)
qed

declare poll_files.simps [simp del]

text \<open>\<^verbatim>\<open>for (; ;)\<close>, lines 442 to 480: \<open>None\<close> where it runs forever.\<close>

partial_function (option) getevents_for :: "bool \<Rightarrow> poke_dev \<Rightarrow> 32 word \<Rightarrow> 32 word \<Rightarrow> gev \<Rightarrow> (int \<times> gev) outcome option" where
  "getevents_for ndebug dev mn mx s =
     (case poll_files ndebug dev mn mx (first_file s) of
        Inl r \<Rightarrow> Some r
      | Inr s' \<Rightarrow> getevents_for ndebug dev mn mx s')"

text \<open>
  \<^verbatim>\<open>xnvme_fioe_getevents\<close>, lines 423 to 485; \<open>t\<close> says that the timeout pointer is
  not null.  Lines 436 to 439 increment \<^verbatim>\<open>xd->prev\<close> unless it is -1, and take the file
  it then names as the current one if there is such a file.
\<close>

definition getevents_start :: "engine \<Rightarrow> gev" where
  "getevents_start x =
     (if prev x \<noteq> - 1
      then (if prev x + 1 < int (nallocated x)
            then \<lparr>g_xd = x\<lparr>prev := prev x + 1, cur := prev x + 1, completed := 0\<rparr>,
                  g_err = 0, g_fwrap_null = False, g_pokes = []\<rparr>
            else \<lparr>g_xd = x\<lparr>prev := prev x + 1, completed := 0\<rparr>,
                  g_err = 0, g_fwrap_null = True, g_pokes = []\<rparr>)
      else \<lparr>g_xd = x\<lparr>completed := 0\<rparr>, g_err = 0, g_fwrap_null = True, g_pokes = []\<rparr>)"

definition xnvme_fioe_getevents :: "bool \<Rightarrow> poke_dev \<Rightarrow> engine \<Rightarrow> 32 word \<Rightarrow> 32 word \<Rightarrow> bool \<Rightarrow> (int \<times> gev) outcome option" where
  "xnvme_fioe_getevents ndebug dev x mn mx t =
     (if t \<and> \<not> ndebug then Some Assert_failed
      else getevents_for ndebug dev mn mx (getevents_start x))"

text \<open>
  The variables at the head of \<^verbatim>\<open>for (; ;)\<close> after \<open>k\<close> polls none of which
  returned: each poll takes the current file (the first one again after the last), pokes it,
  and moves on to the next file.
\<close>

primrec polled :: "poke_dev \<Rightarrow> 32 word \<Rightarrow> nat \<Rightarrow> gev \<Rightarrow> gev" where
  "polled dev mx 0 s = s"
| "polled dev mx (Suc k) s = polled dev mx k (next_file (poke_file dev mx (first_file s)))"

text \<open>
  Polling in turn: a list of file indices that starts at \<open>st\<close> and goes on by one, back to
  0 after the last of the \<open>N\<close> files.
\<close>

definition round_robin :: "nat \<Rightarrow> nat \<Rightarrow> nat list \<Rightarrow> bool" where
  "round_robin N st fs = (fs = map (\<lambda>i. (st + i) mod N) [0 ..< length fs])"

text \<open>
  What holds of the variables at the head of both loops: the files polled so far are in turn,
  and the current file is the next in turn (the first one when there is no current file or the
  last one has been passed).
\<close>

definition poll_inv :: "nat \<Rightarrow> nat \<Rightarrow> gev \<Rightarrow> bool" where
  "poll_inv N st s =
     (nallocated (g_xd s) = N \<and> 0 < N \<and> round_robin N st (map fst (g_pokes s)) \<and>
      (if g_fwrap_null s then (st + length (g_pokes s)) mod N = 0
       else 0 \<le> cur (g_xd s) \<and> cur (g_xd s) \<le> int N \<and>
            nat (cur (g_xd s)) mod N = (st + length (g_pokes s)) mod N))"

text \<open>
  What holds when the call returns \<open>n\<close> through the test of the number of completions: it
  has polled at least one file, the files polled are in turn, the file polled last is recorded
  in \<^verbatim>\<open>xd->prev\<close>, and \<open>n\<close> is the number of completions collected, at least
  \<open>min\<close>.
\<close>

definition poll_post :: "nat \<Rightarrow> nat \<Rightarrow> 32 word \<Rightarrow> int \<Rightarrow> gev \<Rightarrow> bool" where
  "poll_post N st mn n g =
     (g_pokes g \<noteq> [] \<and> round_robin N st (map fst (g_pokes g)) \<and>
      prev (g_xd g) = int (fst (last (g_pokes g))) \<and>
      unat mn \<le> completed (g_xd g) \<and> n = int (completed (g_xd g)))"


definition poke_at :: "nat \<Rightarrow> poke_dev" where
  "poke_at k n f m = (if n = k then (1, [(5, 0)]) else (0, []))"

text \<open>An engine with three files, each with an empty free list.\<close>

definition engine3 :: "int \<Rightarrow> engine" where
  "engine3 p = \<lparr>iocq = (\<lambda>n. 0), completed = 0, ecount = 0, prev = p, cur = 0,
     nallocated = 3, head = (\<lambda>i. []), f_ssw = (\<lambda>i. 9),
     f_lba_nbytes = (\<lambda>i. 512), pool = (\<lambda>r. 0), cb_arg = (\<lambda>r. 7), error = (\<lambda>u. 0)\<rparr>"

text \<open>The variables after the third poll of a call on that engine, with a minimum of one
  completion, when the third poll delivers one.\<close>

definition gev_ex :: gev where
  "gev_ex = poke_file (poke_at 2) 8 (first_file (polled (poke_at 2) 8 2 (getevents_start (engine3 1))))"

section \<open>Calls of the library\<close>

text \<open>
  The calls of the xNVMe library that set up a context and drive it, as both source files make
  them, each with the arguments that matter here: the depth and the flags of
  \<^verbatim>\<open>xnvme_async_init\<close>, the capacity of \<^verbatim>\<open>xnvme_req_pool_alloc\<close>; for a command
  the sector offset, the request handle and the value returned; for
  \<^verbatim>\<open>xnvme_async_poke\<close> and \<^verbatim>\<open>xnvme_async_wait\<close> the completion status of each
  request for which the library called \<^verbatim>\<open>cb_pool\<close> during the call, and for
  \<^verbatim>\<open>xnvme_async_wait\<close> the value returned.
\<close>

datatype lib_call =
    Dev_open
  | Async_init "32 word" "32 word"
  | Req_pool_alloc "32 word"
  | Req_pool_init
  | Submit nat nat int
  | Poke "16 word list"
  | Wait int "16 word list"

section \<open>The fio engine: opening a device\<close>

text \<open>
  What the library answers to the calls of \<^verbatim>\<open>_dev_open\<close>: whether
  \<^verbatim>\<open>xnvme_dev_open\<close> returns a device, and the values returned by
  \<^verbatim>\<open>xnvme_async_init\<close>, \<^verbatim>\<open>xnvme_req_pool_alloc\<close> and
  \<^verbatim>\<open>xnvme_req_pool_init\<close>.
\<close>

record open_env =
  dev_opened :: bool
  async_init_ret :: int
  pool_alloc_ret :: int
  pool_init_ret :: int

text \<open>
  \<^verbatim>\<open>_dev_open\<close>, lines 231 to 309: the value returned and the calls of the library made.
  \<open>be_too_long\<close> is the test of line 243 on the option \<^verbatim>\<open>--be\<close>; \<open>hipri\<close> and
  \<open>sqpoll_thread\<close> are the two other options, \<open>iopoll\<close> and \<open>sqpoll\<close> the flag bits
  \<^verbatim>\<open>XNVME_ASYNC_IOPOLL\<close> and \<^verbatim>\<open>XNVME_ASYNC_SQPOLL\<close> of the library;
  \<open>iodepth\<close> is \<^verbatim>\<open>td->o.iodepth\<close>, an \<^verbatim>\<open>unsigned int\<close>.
\<close>

definition dev_open :: "open_env \<Rightarrow> bool \<Rightarrow> bool \<Rightarrow> 32 word \<Rightarrow> 32 word \<Rightarrow> 32 word \<Rightarrow> int \<Rightarrow> nat \<Rightarrow> 32 word \<Rightarrow> int \<times> lib_call list" where
  "dev_open env be_too_long hipri sqpoll_thread iopoll sqpoll fno nalloc iodepth =
     (let flags = (if hipri then iopoll else 0) OR (if sqpoll_thread \<noteq> 0 then sqpoll else 0) in
      if be_too_long then (1, [])
      else if fno > int nalloc then (1, [])
      else if \<not> dev_opened env then (1, [Dev_open])
      else if async_init_ret env \<noteq> 0 then (1, [Dev_open, Async_init iodepth flags])
      else if pool_alloc_ret env \<noteq> 0
      then (1, [Dev_open, Async_init iodepth flags, Req_pool_alloc (iodepth + 1)])
      else if pool_init_ret env \<noteq> 0
      then (1, [Dev_open, Async_init iodepth flags, Req_pool_alloc (iodepth + 1), Req_pool_init])
      else (0, [Dev_open, Async_init iodepth flags, Req_pool_alloc (iodepth + 1), Req_pool_init]))"

definition open_ok :: open_env where
  "open_ok = \<lparr>dev_opened = True, async_init_ret = 0, pool_alloc_ret = 0, pool_init_ret = 0\<rparr>"

section \<open>The example: driving one zone asynchronously\<close>

text \<open>
  \<^verbatim>\<open>sub_async_read\<close>, \<^verbatim>\<open>sub_async_write\<close> and \<^verbatim>\<open>sub_async_append\<close> of
  \<^verbatim>\<open>zoned_io_async.c\<close> are the same function but for the command they submit, the zone
  they look for, and the label \<^verbatim>\<open>next\<close>, where only the write waits.
\<close>

datatype drive_op = Read | Write | Append

text \<open>
  The library as the example sees it.  Its answers are a parameter: for the number of a call
  (the calls of one run are numbered from 0, in the order they are made) the value it returns,
  for a poke how many of the commands in flight it finds completed, and for a command the status
  it will complete with.  With them goes the one answer of the command line helpers that the
  functions use after line 88: whether an output file was given to the read, and then the value
  \<^verbatim>\<open>xnvmec_buf_to_file\<close> returns for it.
\<close>

record lib =
  ret :: "nat \<Rightarrow> int"
  ndone :: "nat \<Rightarrow> nat"
  status :: "nat \<Rightarrow> 16 word"
  data_output :: "int option"

text \<open>
  The places of the function where control can be: the initialisation of the context (line 88),
  the head of the \<^verbatim>\<open>for\<close> loop, the labels \<^verbatim>\<open>submit\<close> and \<^verbatim>\<open>next\<close>, the
  statement after the loop, the label \<^verbatim>\<open>exit\<close>, and the trap of a null pointer.
\<close>

datatype loc = L_init | L_for | L_submit | L_next | L_after | L_exit | L_trap

text \<open>
  The variables: \<^verbatim>\<open>sect\<close>, \<^verbatim>\<open>req\<close>, \<^verbatim>\<open>err\<close>, the three counters of
  \<^verbatim>\<open>cb_args\<close>, the free list \<^verbatim>\<open>reqs->head\<close>; and of the library, the commands in
  flight, oldest first, each a request handle with the status it will complete with, and the
  calls made so far.  The counters count the commands of one zone and are natural numbers.
\<close>

record drive =
  d_pc :: loc
  d_sect :: nat
  d_req :: nat
  d_err :: int
  d_ecount :: nat
  d_completed :: nat
  d_submitted :: nat
  d_head :: "nat list"
  d_inflight :: "(nat \<times> 16 word) list"
  d_calls :: "lib_call list"

text \<open>\<^verbatim>\<open>qd = cli->args.qdepth ? cli->args.qdepth : DEFAULT_QD\<close>\<close>

definition queue_depth :: "32 word \<Rightarrow> 32 word" where
  "queue_depth qdepth = (if qdepth \<noteq> 0 then qdepth else 8)"

text \<open>\<^verbatim>\<open>cb_pool\<close> of the example, lines 19 to 32, for one completed request.\<close>

definition cb_pool_drive :: "drive \<Rightarrow> nat \<times> 16 word \<Rightarrow> drive" where
  "cb_pool_drive s c =
     s\<lparr>d_completed := d_completed s + 1,
       d_ecount := (if snd c \<noteq> 0 then d_ecount s + 1 else d_ecount s),
       d_head := fst c # d_head s\<rparr>"

text \<open>
  Modelled from the spec: \<^verbatim>\<open>xnvme_async_poke\<close> and \<^verbatim>\<open>xnvme_async_wait\<close> of the
  library, which is not among the source files.  A poke drains completed commands and calls
  the callback of each before it returns; here it completes the oldest \<open>k\<close> commands in
  flight.  A wait that succeeds returns when every command in flight has completed; a wait that
  fails (a negative value) completes none.
\<close>

definition complete :: "nat \<Rightarrow> drive \<Rightarrow> drive" where
  "complete k s =
     (foldl cb_pool_drive s (take k (d_inflight s)))\<lparr>d_inflight := drop k (d_inflight s)\<rparr>"

definition poke :: "lib \<Rightarrow> drive \<Rightarrow> drive" where
  "poke l s =
     (let k = min (ndone l (length (d_calls s))) (length (d_inflight s))
      in (complete k s)\<lparr>d_calls := d_calls s @ [Poke (map snd (take k (d_inflight s)))]\<rparr>)"

definition wait :: "lib \<Rightarrow> drive \<Rightarrow> drive" where
  "wait l s =
     (let r = ret l (length (d_calls s));
          k = (if r < 0 then 0 else length (d_inflight s))
      in (complete k s)\<lparr>d_err := r,
                         d_calls := d_calls s @ [Wait r (map snd (take k (d_inflight s)))]\<rparr>)"

text \<open>
  Modelled from the spec: the submission of a command, \<^verbatim>\<open>xnvme_cmd_read\<close>,
  \<^verbatim>\<open>xnvme_cmd_write\<close> or \<^verbatim>\<open>znd_cmd_append\<close>, with the answer in
  \<^verbatim>\<open>err\<close>.  A context with as many commands in flight as its depth answers a
  submission with a busy signal; otherwise the answer is the library's.  An accepted command is
  in flight.
\<close>

definition submit :: "lib \<Rightarrow> 32 word \<Rightarrow> drive \<Rightarrow> drive" where
  "submit l qd s =
     (let n = length (d_calls s);
          r = (if unat qd \<le> length (d_inflight s) then - EBUSY else ret l n)
      in s\<lparr>d_err := r,
           d_inflight := (if r = 0 then d_inflight s @ [(d_req s, status l n)] else d_inflight s),
           d_calls := d_calls s @ [Submit (d_sect s) (d_req s) r]\<rparr>)"

text \<open>
  Lines 88 to 103: the context is initialised with depth \<^verbatim>\<open>qd\<close> and no flags, the pool
  is allocated with capacity \<^verbatim>\<open>qd + 1\<close> and initialised; the first call that fails
  leads to \<^verbatim>\<open>exit\<close>.  Modelled from the spec: after \<^verbatim>\<open>xnvme_req_pool_init\<close> the
  free list holds as many request handles as the capacity asked for.
\<close>

definition init_ctx :: "lib \<Rightarrow> 32 word \<Rightarrow> drive \<Rightarrow> drive" where
  "init_ctx l qd s =
     (if ret l 0 \<noteq> 0
      then s\<lparr>d_pc := L_exit, d_err := ret l 0, d_calls := [Async_init qd 0]\<rparr>
      else if ret l 1 \<noteq> 0
      then s\<lparr>d_pc := L_exit, d_err := ret l 1,
             d_calls := [Async_init qd 0, Req_pool_alloc (qd + 1)]\<rparr>
      else if ret l 2 \<noteq> 0
      then s\<lparr>d_pc := L_exit, d_err := ret l 2,
             d_calls := [Async_init qd 0, Req_pool_alloc (qd + 1), Req_pool_init]\<rparr>
      else s\<lparr>d_pc := L_for, d_err := 0, d_sect := 0, d_head := [0 ..< unat (qd + 1)],
             d_calls := [Async_init qd 0, Req_pool_alloc (qd + 1), Req_pool_init]\<rparr>)"

text \<open>
  One step of the function from each place.  \<open>zone_zcap\<close> is the capacity \<^verbatim>\<open>zone.zcap\<close> of
  the zone in sectors.
  \<^item> At the head of the loop, line 110: the loop goes on while \<^verbatim>\<open>sect < zone.zcap\<close> and
    \<^verbatim>\<open>cb_args.ecount\<close> is zero; it then takes the first request handle off the free list
    (\<^verbatim>\<open>SLIST_REMOVE_HEAD\<close> traps on an empty list).
  \<^item> At \<^verbatim>\<open>submit\<close>, lines 115 to 131: the command is submitted; on 0 the counter of
    submissions is incremented and control goes to \<^verbatim>\<open>next\<close>; on \<^verbatim>\<open>-EBUSY\<close> or
    \<^verbatim>\<open>-EAGAIN\<close> the context is poked and control goes back to \<^verbatim>\<open>submit\<close>; on any
    other value control goes to \<^verbatim>\<open>exit\<close>.
  \<^item> At \<^verbatim>\<open>next\<close>: the write waits for the context (lines 279 to 285) and goes to
    \<^verbatim>\<open>exit\<close> if the wait fails; then \<^verbatim>\<open>++sect\<close>.
  \<^item> After the loop, lines 138 to 150: the context is waited for; a failed wait, or a
    non-zero count of errors (\<^verbatim>\<open>err = -EIO\<close>), leads to \<^verbatim>\<open>exit\<close>; otherwise
    the read writes the buffer to the output file if one was given (lines 154 to 162), and
    the function comes to \<^verbatim>\<open>exit\<close>.
\<close>

definition step :: "drive_op \<Rightarrow> lib \<Rightarrow> 32 word \<Rightarrow> nat \<Rightarrow> drive \<Rightarrow> drive" where
  "step op l qdepth zone_zcap s =
     (case d_pc s of
        L_init \<Rightarrow> init_ctx l (queue_depth qdepth) s
      | L_for \<Rightarrow>
          if d_sect s < zone_zcap \<and> d_ecount s = 0
          then (case d_head s of
                  [] \<Rightarrow> s\<lparr>d_pc := L_trap\<rparr>
                | r # rest \<Rightarrow> s\<lparr>d_pc := L_submit, d_req := r, d_head := rest\<rparr>)
          else s\<lparr>d_pc := L_after\<rparr>
      | L_submit \<Rightarrow>
          let s1 = submit l (queue_depth qdepth) s in
          if d_err s1 = 0 then s1\<lparr>d_submitted := d_submitted s1 + 1, d_pc := L_next\<rparr>
          else if d_err s1 = - EBUSY \<or> d_err s1 = - EAGAIN then poke l s1
          else s1\<lparr>d_pc := L_exit\<rparr>
      | L_next \<Rightarrow>
          if op = Write
          then (let s1 = wait l s in
                if d_err s1 < 0 then s1\<lparr>d_pc := L_exit\<rparr>
                else s1\<lparr>d_sect := d_sect s1 + 1, d_pc := L_for\<rparr>)
          else s\<lparr>d_sect := d_sect s + 1, d_pc := L_for\<rparr>
      | L_after \<Rightarrow>
          let s1 = wait l s in
          if d_err s1 < 0 then s1\<lparr>d_pc := L_exit\<rparr>
          else if d_ecount s1 \<noteq> 0 then s1\<lparr>d_err := - EIO, d_pc := L_exit\<rparr>
          else if op = Read
          then (case data_output l of
                  None \<Rightarrow> s1\<lparr>d_pc := L_exit\<rparr>
                | Some e \<Rightarrow> s1\<lparr>d_err := e, d_pc := L_exit\<rparr>)
          else s1\<lparr>d_pc := L_exit\<rparr>
      | L_exit \<Rightarrow> s
      | L_trap \<Rightarrow> s)"

text \<open>The variables before line 88, and the run of \<open>n\<close> steps from there.\<close>

definition drive_start :: drive where
  "drive_start = \<lparr>d_pc = L_init, d_sect = 0, d_req = 0, d_err = 0, d_ecount = 0,
     d_completed = 0, d_submitted = 0, d_head = [], d_inflight = [], d_calls = []\<rparr>"

primrec run :: "drive_op \<Rightarrow> lib \<Rightarrow> 32 word \<Rightarrow> nat \<Rightarrow> nat \<Rightarrow> drive" where
  "run op l qdepth zone_zcap 0 = drive_start"
| "run op l qdepth zone_zcap (Suc n) = step op l qdepth zone_zcap (run op l qdepth zone_zcap n)"


text \<open>Kinds of calls, the completion statuses delivered during a call, and the number of
  completions with an error delivered during a list of calls.\<close>

fun is_wait :: "lib_call \<Rightarrow> bool" where
  "is_wait (Wait r cs) = True"
| "is_wait c = False"

fun loop_call :: "lib_call \<Rightarrow> bool" where
  "loop_call (Submit x r e) = True"
| "loop_call (Poke cs) = True"
| "loop_call (Wait r cs) = True"
| "loop_call c = False"

fun completions :: "lib_call \<Rightarrow> 16 word list" where
  "completions (Poke cs) = cs"
| "completions (Wait r cs) = cs"
| "completions c = []"

definition err_count :: "lib_call list \<Rightarrow> nat" where
  "err_count tr = length (filter (\<lambda>st. st \<noteq> 0) (concat (map completions tr)))"

text \<open>A library that accepts every command and completes none before the wait; one whose
  first command completes with an error; and one whose first command completes with an error
  at the first poke and that fails the submission after that poke with \<^verbatim>\<open>-EIO\<close>.\<close>

definition lib_ok :: lib where
  "lib_ok = \<lparr>ret = (\<lambda>n. 0), ndone = (\<lambda>n. 0), status = (\<lambda>n. 0), data_output = None\<rparr>"



text \<open>
  What holds of the commands in flight at every step: they are never more than the queue
  depth; the write has none in flight when it is about to submit, and so never more than one;
  the read and the append have not waited for the context as long as they are in the loop.
\<close>

definition pipeline_inv :: "drive_op \<Rightarrow> 32 word \<Rightarrow> drive \<Rightarrow> bool" where
  "pipeline_inv op qdepth s =
     (length (d_inflight s) \<le> unat (queue_depth qdepth) \<and>
      (op = Write \<longrightarrow>
         (d_pc s \<in> {L_init, L_for, L_submit} \<longrightarrow> d_inflight s = []) \<and> length (d_inflight s) \<le> 1) \<and>
      (op \<noteq> Write \<longrightarrow> d_pc s \<in> {L_init, L_for, L_submit, L_next} \<longrightarrow>
         \<not> list_ex is_wait (d_calls s)))"


text \<open>
  What holds of the calls that set up the context: they come first, before any call of the
  loop, in the order initialisation of the context with the queue depth, allocation of the pool
  with the queue depth plus one, initialisation of the pool, each made once and the later ones
  only when the earlier ones succeeded; and the loop is entered only after all three.
\<close>

definition setup_inv :: "32 word \<Rightarrow> drive \<Rightarrow> bool" where
  "setup_inv qd s =
     (\<exists>pre rest. d_calls s = pre @ rest \<and> list_all loop_call rest \<and>
        pre \<in> {[], [Async_init qd 0], [Async_init qd 0, Req_pool_alloc (qd + 1)],
                [Async_init qd 0, Req_pool_alloc (qd + 1), Req_pool_init]} \<and>
        (d_pc s = L_init \<longrightarrow> d_calls s = []) \<and>
        (d_pc s \<in> {L_for, L_submit, L_next, L_after, L_trap} \<longrightarrow>
           pre = [Async_init qd 0, Req_pool_alloc (qd + 1), Req_pool_init]))"

text \<open>The two transient answers to a submission, \<^verbatim>\<open>-EBUSY\<close> and \<^verbatim>\<open>-EAGAIN\<close>.\<close>

definition is_busy :: "int \<Rightarrow> bool" where
  "is_busy e = (e = - EBUSY \<or> e = - EAGAIN)"

text \<open>
  The backpressure loop, read off the calls made so far: every submission answered busy is
  followed at once by a poke, and what follows the poke, if anything does yet, is a submission
  of the same sector with the same request handle.
\<close>

definition busy_retry :: "lib_call list \<Rightarrow> bool" where
  "busy_retry tr =
     (\<forall>i<length tr. \<forall>x r e. tr ! i = Submit x r e \<and> is_busy e \<longrightarrow>
        (Suc i < length tr \<and> (\<exists>cs. tr ! Suc i = Poke cs)) \<and>
        (Suc (Suc i) < length tr \<longrightarrow> (\<exists>e'. tr ! Suc (Suc i) = Submit x r e')))"

text \<open>The last call is not a submission answered busy; and the call before the last is a
  submission of sector \<open>x\<close> with handle \<open>r\<close> answered busy.\<close>

definition last_not_busy :: "lib_call list \<Rightarrow> bool" where
  "last_not_busy tr = (\<forall>x r e. tr \<noteq> [] \<and> last tr = Submit x r e \<longrightarrow> \<not> is_busy e)"

definition pending :: "lib_call list \<Rightarrow> nat \<Rightarrow> nat \<Rightarrow> bool" where
  "pending tr x r = (2 \<le> length tr \<and> (\<exists>e. tr ! (length tr - 2) = Submit x r e \<and> is_busy e))"

text \<open>
  What holds at every step of the backpressure loop: the calls so far follow the loop; a run
  that has just poked after a busy answer is at the label \<^verbatim>\<open>submit\<close> with the same
  sector and the same request handle; and the count of errors is the number of completions
  with a non-zero status that the library has delivered.
\<close>

definition retry_inv :: "drive \<Rightarrow> bool" where
  "retry_inv s =
     (busy_retry (d_calls s) \<and> last_not_busy (d_calls s) \<and>
      (\<forall>x r. pending (d_calls s) x r \<longrightarrow> d_pc s = L_submit \<and> d_sect s = x \<and> d_req s = r) \<and>
      d_ecount s = err_count (d_calls s) \<and> (d_pc s = L_init \<longrightarrow> d_calls s = []))"

text \<open>A library that answers the second command busy once, and completes the first command at
  the poke that follows.\<close>

definition lib_busy :: lib where
  "lib_busy = \<lparr>ret = (\<lambda>n. if n = 4 then - 16 else 0), ndone = (\<lambda>n. if n = 5 then 1 else 0),
     status = (\<lambda>n. 0), data_output = None\<rparr>"

section \<open>Properties of the zone report\<close>

subsection \<open>The transforming loop\<close>

lemma transform_step:
  "idx < unat (nentries rprt) \<Longrightarrow> transform k sh rprt idx zbdz =
     (case transform_descr k sh (descr rprt idx) (zbdz idx) of
        Inl z \<Rightarrow> (- EIO, zbdz(idx := z))
      | Inr z \<Rightarrow> transform k sh rprt (Suc idx) (zbdz(idx := z)))"
  by (simp add: transform.simps [of k sh rprt idx zbdz])

lemma transform_done:
  "\<not> idx < unat (nentries rprt) \<Longrightarrow> transform k sh rprt idx zbdz = (0, zbdz)"
  by (simp add: transform.simps [of k sh rprt idx zbdz])

lemma transform_below:
  "j < idx \<Longrightarrow> snd (transform k sh rprt idx zbdz) j = zbdz j"
proof (induction k sh rprt idx zbdz rule: transform.induct)
  case (1 k sh rprt idx zbdz)
  show ?case
  proof (cases "idx < unat (nentries rprt)")
    case False
    then show ?thesis by (simp add: transform.simps [of k sh rprt idx zbdz] fun_upd_def)
  next
    case True
    show ?thesis
    proof (cases "transform_descr k sh (descr rprt idx) (zbdz idx)")
      case (Inl z)
      with True "1.prems" show ?thesis
        by (simp add: transform.simps [of k sh rprt idx zbdz] fun_upd_def)
    next
      case (Inr z)
      with True "1.prems" "1.IH" [OF True Inr] show ?thesis
        by (simp add: transform.simps [of k sh rprt idx zbdz] fun_upd_def)
    qed
  qed
qed

lemma transform_at:
  "idx \<le> j \<Longrightarrow> j < unat (nentries rprt) \<Longrightarrow> seqwr_upto k rprt idx (Suc j) \<Longrightarrow>
   Inr (snd (transform k sh rprt idx zbdz) j) = transform_descr k sh (descr rprt j) (zbdz j)"
proof (induction k sh rprt idx zbdz rule: transform.induct)
  case (1 k sh rprt idx zbdz)
  from "1.prems" have lt: "idx < unat (nentries rprt)" by simp
  from "1.prems" have "zt (descr rprt idx) = ZND_TYPE_SEQWR k"
    by (simp add: seqwr_upto_def)
  then obtain z where z: "transform_descr k sh (descr rprt idx) (zbdz idx) = Inr z"
    by (simp add: transform_descr_def Let_def)
  show ?case
  proof (cases "j = idx")
    case True
    with lt z show ?thesis
      using transform_below [of idx "Suc idx" k sh rprt "zbdz(idx := z)"]
      by (simp add: transform.simps [of k sh rprt idx zbdz] fun_upd_def)
  next
    case False
    with "1.prems" have "Suc idx \<le> j" "seqwr_upto k rprt (Suc idx) (Suc j)"
      by (simp_all add: seqwr_upto_def)
    with "1.IH" [OF lt z] "1.prems" False lt z show ?thesis
      by (simp add: transform.simps [of k sh rprt idx zbdz] fun_upd_def)
  qed
qed

lemma transform_ok:
  "seqwr_upto k rprt idx (unat (nentries rprt)) \<Longrightarrow> fst (transform k sh rprt idx zbdz) = 0"
proof (induction k sh rprt idx zbdz rule: transform.induct)
  case (1 k sh rprt idx zbdz)
  show ?case
  proof (cases "idx < unat (nentries rprt)")
    case False
    then show ?thesis by (simp add: transform.simps [of k sh rprt idx zbdz] fun_upd_def)
  next
    case True
    with "1.prems" have "zt (descr rprt idx) = ZND_TYPE_SEQWR k"
      by (simp add: seqwr_upto_def)
    then obtain z where z: "transform_descr k sh (descr rprt idx) (zbdz idx) = Inr z"
      by (simp add: transform_descr_def Let_def)
    from "1.prems" have "seqwr_upto k rprt (Suc idx) (unat (nentries rprt))"
      by (simp add: seqwr_upto_def)
    with "1.IH" [OF True z] True z show ?thesis
      by (simp add: transform.simps [of k sh rprt idx zbdz] fun_upd_def)
  qed
qed

lemma transform_above:
  "unat (nentries rprt) \<le> j \<Longrightarrow> snd (transform k sh rprt idx zbdz) j = zbdz j"
proof (induction k sh rprt idx zbdz rule: transform.induct)
  case (1 k sh rprt idx zbdz)
  show ?case
  proof (cases "idx < unat (nentries rprt)")
    case False
    then show ?thesis by (simp add: transform_done)
  next
    case True
    show ?thesis
    proof (cases "transform_descr k sh (descr rprt idx) (zbdz idx)")
      case (Inl z)
      with True "1.prems" show ?thesis
        by (simp add: transform_step)
    next
      case (Inr z)
      with True "1.prems" "1.IH" [OF True Inr] show ?thesis
        by (simp add: transform_step fun_upd_def)
    qed
  qed
qed



subsection \<open>The mapping of zone states\<close>

text \<open>
  Claim C1, as the code has it.  For every entry of the zone report that
  \<^verbatim>\<open>xnvme_fioe_report_zones\<close> processes (the count matches, the offset is within the
  device, and the entry and those before it have the sequential-write-required type), the
  device-reported state is mapped Empty to Empty, ImplicitlyOpen to ImplicitOpen, ExplicitlyOpen
  to ExplicitOpen, Closed to Closed, Full to Full, ReadOnly to Offline and Offline to Offline.
  A raw state outside these seven is not rejected: it shares the \<^verbatim>\<open>default\<close> label
  with ReadOnly and Offline and is mapped to Offline, and no state raises an error (when every
  entry has the accepted type, \<^verbatim>\<open>err\<close> is 0 at the exit).
\<close>

theorem report_zones_state_mapping:
  assumes dist: "distinct (znd_states k)"
    and ns: "nsect d \<noteq> 0"
    and rp: "report_from_dev d (report_slba d offset) nr_zones = Some rprt"
    and ne: "nentries rprt = nr_zones"
    and ib: "offset \<le> tbytes d"
    and ix: "idx < unat nr_zones"
    and ty: "seqwr_upto k rprt 0 (Suc idx)"
    and s: "s = zs (descr rprt idx)"
  shows "\<exists>err zbdz'. report_zones_err k (Some d) offset zbdz nr_zones = Some (err, zbdz') \<and>
     (seqwr_upto k rprt 0 (unat nr_zones) \<longrightarrow> err = 0) \<and>
     (s = ZND_STATE_EMPTY k \<longrightarrow> cond (zbdz' idx) = ZBD_ZONE_COND_EMPTY) \<and>
     (s = ZND_STATE_IOPEN k \<longrightarrow> cond (zbdz' idx) = ZBD_ZONE_COND_IMP_OPEN) \<and>
     (s = ZND_STATE_EOPEN k \<longrightarrow> cond (zbdz' idx) = ZBD_ZONE_COND_EXP_OPEN) \<and>
     (s = ZND_STATE_CLOSED k \<longrightarrow> cond (zbdz' idx) = ZBD_ZONE_COND_CLOSED) \<and>
     (s = ZND_STATE_FULL k \<longrightarrow> cond (zbdz' idx) = ZBD_ZONE_COND_FULL) \<and>
     (s = ZND_STATE_RONLY k \<longrightarrow> cond (zbdz' idx) = ZBD_ZONE_COND_OFFLINE) \<and>
     (s = ZND_STATE_OFFLINE k \<longrightarrow> cond (zbdz' idx) = ZBD_ZONE_COND_OFFLINE) \<and>
     (s \<notin> set (znd_states k) \<longrightarrow> cond (zbdz' idx) = ZBD_ZONE_COND_OFFLINE)"
proof -
  obtain err zbdz' where t: "transform k (ssw d) rprt 0 zbdz = (err, zbdz')"
    by (cases "transform k (ssw d) rprt 0 zbdz")
  from ns rp ne ib t have r: "report_zones_err k (Some d) offset zbdz nr_zones = Some (err, zbdz')"
    by (simp add: report_zones_err_def not_less [symmetric])
  from transform_ok [of k rprt 0 "ssw d" zbdz] t ne
  have e: "seqwr_upto k rprt 0 (unat nr_zones) \<longrightarrow> err = 0" by simp
  from ty have "zt (descr rprt idx) = ZND_TYPE_SEQWR k" by (simp add: seqwr_upto_def)
  with transform_at [of 0 idx rprt k "ssw d" zbdz] ix ne ty t s
  have c: "cond (zbdz' idx) = zs_cond k s"
    by (simp add: transform_descr_def Let_def)
  from dist have ne: "ZND_STATE_EMPTY k \<noteq> ZND_STATE_IOPEN k" "ZND_STATE_EMPTY k \<noteq> ZND_STATE_EOPEN k"
    "ZND_STATE_EMPTY k \<noteq> ZND_STATE_CLOSED k" "ZND_STATE_EMPTY k \<noteq> ZND_STATE_FULL k"
    "ZND_STATE_EMPTY k \<noteq> ZND_STATE_RONLY k" "ZND_STATE_EMPTY k \<noteq> ZND_STATE_OFFLINE k"
    "ZND_STATE_IOPEN k \<noteq> ZND_STATE_EOPEN k" "ZND_STATE_IOPEN k \<noteq> ZND_STATE_CLOSED k"
    "ZND_STATE_IOPEN k \<noteq> ZND_STATE_FULL k" "ZND_STATE_IOPEN k \<noteq> ZND_STATE_RONLY k"
    "ZND_STATE_IOPEN k \<noteq> ZND_STATE_OFFLINE k" "ZND_STATE_EOPEN k \<noteq> ZND_STATE_CLOSED k"
    "ZND_STATE_EOPEN k \<noteq> ZND_STATE_FULL k" "ZND_STATE_EOPEN k \<noteq> ZND_STATE_RONLY k"
    "ZND_STATE_EOPEN k \<noteq> ZND_STATE_OFFLINE k" "ZND_STATE_CLOSED k \<noteq> ZND_STATE_FULL k"
    "ZND_STATE_CLOSED k \<noteq> ZND_STATE_RONLY k" "ZND_STATE_CLOSED k \<noteq> ZND_STATE_OFFLINE k"
    "ZND_STATE_FULL k \<noteq> ZND_STATE_RONLY k" "ZND_STATE_FULL k \<noteq> ZND_STATE_OFFLINE k"
    by (simp_all add: znd_states_def)
  have m1: "s = ZND_STATE_EMPTY k \<longrightarrow> zs_cond k s = ZBD_ZONE_COND_EMPTY"
    by (simp add: zs_cond_def)
  have m2: "s = ZND_STATE_IOPEN k \<longrightarrow> zs_cond k s = ZBD_ZONE_COND_IMP_OPEN"
    using ne by (simp add: zs_cond_def)
  have m3: "s = ZND_STATE_EOPEN k \<longrightarrow> zs_cond k s = ZBD_ZONE_COND_EXP_OPEN"
    using ne by (simp add: zs_cond_def)
  have m4: "s = ZND_STATE_CLOSED k \<longrightarrow> zs_cond k s = ZBD_ZONE_COND_CLOSED"
    using ne by (simp add: zs_cond_def)
  have m5: "s = ZND_STATE_FULL k \<longrightarrow> zs_cond k s = ZBD_ZONE_COND_FULL"
    using ne by (simp add: zs_cond_def)
  have m6: "s = ZND_STATE_RONLY k \<longrightarrow> zs_cond k s = ZBD_ZONE_COND_OFFLINE"
    using ne by (simp add: zs_cond_def)
  have m7: "s = ZND_STATE_OFFLINE k \<longrightarrow> zs_cond k s = ZBD_ZONE_COND_OFFLINE"
    using ne by (simp add: zs_cond_def)
  have m8: "s \<notin> set (znd_states k) \<longrightarrow> zs_cond k s = ZBD_ZONE_COND_OFFLINE"
    by (simp add: zs_cond_def znd_states_def)
  from r e m1 m2 m3 m4 m5 m6 m7 m8 show ?thesis
    unfolding c [symmetric] by blast
qed

theorem report_zones_state_mapping_witness:
  "\<exists>err zbdz'. report_zones_err zns_enum (Some (zdev_ex (rprt_ex [0xD, 0x1]))) 0 zones0 2 = Some (err, zbdz') \<and>
     err = 0 \<and> cond (zbdz' 0) = ZBD_ZONE_COND_OFFLINE"
  using report_zones_state_mapping [of zns_enum "zdev_ex (rprt_ex [0xD, 0x1])" 0 2 "rprt_ex [0xD, 0x1]" 0 "0xD" zones0]
  by (simp add: zns_enum_def znd_states_def zdev_ex_def rprt_ex_def descr_of_def seqwr_upto_def report_slba_def)

text \<open>
  The claim as stated fails: a report of two entries whose second entry has the raw state 7,
  which is none of the seven enumerators, is accepted.  The call returns 2, the requested
  count, and the second zone is reported Offline.
\<close>

theorem report_zones_unknown_state_counterexample:
  "0x7 \<notin> set (znd_states zns_enum) \<and>
   xnvme_fioe_report_zones zns_enum (Some (zdev_ex (rprt_ex [0x1, 0x7]))) 0 zones0 2 \<noteq> None \<and>
   fst (the (xnvme_fioe_report_zones zns_enum (Some (zdev_ex (rprt_ex [0x1, 0x7]))) 0 zones0 2)) = 2 \<and>
   cond (snd (the (xnvme_fioe_report_zones zns_enum (Some (zdev_ex (rprt_ex [0x1, 0x7]))) 0 zones0 2)) 1)
     = ZBD_ZONE_COND_OFFLINE"
  by (simp add: zns_enum_def znd_states_def zdev_ex_def rprt_ex_def descr_of_def report_slba_def
      xnvme_fioe_report_zones_def report_zones_err_def transform_step transform_done transform_descr_def
      zs_cond_def zones0_def zone0_def)

subsection \<open>The check of the number of entries\<close>

lemma sint_small: "unat (w :: 32 word) < 2 ^ 31 \<Longrightarrow> sint w = int (unat w)"
proof -
  assume a: "unat w < 2 ^ 31"
  then have "nat (uint w) < 2 ^ 31" by (simp only: unat_eq_nat_uint)
  then have "uint w < int (2 ^ 31)" by (simp only: nat_less_iff [OF uint_ge_0])
  then have "uint w < 2 ^ 31" by simp
  moreover have "- (2 ^ 31) \<le> uint w" by (rule order_trans [of _ 0]) simp_all
  ultimately have "signed_take_bit 31 (uint w) = uint w"
    by (simp add: signed_take_bit_int_eq_self)
  then show ?thesis by (simp add: sint_uint)
qed

text \<open>
  What the call returns, given the report the device returns for the requested count.  On a
  mismatch of the number of entries with \<^verbatim>\<open>nr_zones\<close> it sets \<^verbatim>\<open>err = 1\<close>,
  returns that value and leaves the caller's array untouched.  On a match (with the offset
  within the device and every entry of the accepted type) each of the \<^verbatim>\<open>nr_zones\<close>
  entries is transformed into its zone descriptor, nothing else is written, and the call returns
  \<^verbatim>\<open>(int)nr_zones\<close>, which is \<^verbatim>\<open>nr_zones\<close> itself below \<open>2^31\<close>.
\<close>

lemma report_zones_count_result:
  assumes ns: "nsect d \<noteq> 0"
    and rp: "report_from_dev d (report_slba d offset) nr_zones = Some rprt"
  shows "(nentries rprt \<noteq> nr_zones \<longrightarrow>
            report_zones_err k (Some d) offset zbdz nr_zones = Some (1, zbdz) \<and>
            xnvme_fioe_report_zones k (Some d) offset zbdz nr_zones = Some (1, zbdz)) \<and>
         (nentries rprt = nr_zones \<and> offset \<le> tbytes d \<and> seqwr_upto k rprt 0 (unat nr_zones) \<longrightarrow>
            (\<exists>zbdz'. xnvme_fioe_report_zones k (Some d) offset zbdz nr_zones = Some (sint nr_zones, zbdz') \<and>
               (\<forall>i < unat nr_zones. Inr (zbdz' i) = transform_descr k (ssw d) (descr rprt i) (zbdz i)) \<and>
               (\<forall>i \<ge> unat nr_zones. zbdz' i = zbdz i))) \<and>
         (unat nr_zones < 2 ^ 31 \<longrightarrow> sint nr_zones = int (unat nr_zones))"
proof (intro conjI impI)
  assume "nentries rprt \<noteq> nr_zones"
  with ns rp show e: "report_zones_err k (Some d) offset zbdz nr_zones = Some (1, zbdz)"
    by (simp add: report_zones_err_def)
  then show "xnvme_fioe_report_zones k (Some d) offset zbdz nr_zones = Some (1, zbdz)"
    by (simp add: xnvme_fioe_report_zones_def)
next
  assume a: "nentries rprt = nr_zones \<and> offset \<le> tbytes d \<and> seqwr_upto k rprt 0 (unat nr_zones)"
  obtain err zbdz' where t: "transform k (ssw d) rprt 0 zbdz = (err, zbdz')"
    by (cases "transform k (ssw d) rprt 0 zbdz")
  from a transform_ok [of k rprt 0 "ssw d" zbdz] t have e: "err = 0" by simp
  from ns rp a t e have r: "report_zones_err k (Some d) offset zbdz nr_zones = Some (0, zbdz')"
    by (simp add: report_zones_err_def not_less [symmetric])
  then have x: "xnvme_fioe_report_zones k (Some d) offset zbdz nr_zones = Some (sint nr_zones, zbdz')"
    by (simp add: xnvme_fioe_report_zones_def)
  have i1: "\<forall>i < unat nr_zones. Inr (zbdz' i) = transform_descr k (ssw d) (descr rprt i) (zbdz i)"
  proof (intro allI impI)
    fix i assume i: "i < unat nr_zones"
    with a have "seqwr_upto k rprt 0 (Suc i)" by (simp add: seqwr_upto_def)
    with transform_at [of 0 i rprt k "ssw d" zbdz] i a t
    show "Inr (zbdz' i) = transform_descr k (ssw d) (descr rprt i) (zbdz i)" by simp
  qed
  have i2: "\<forall>i \<ge> unat nr_zones. zbdz' i = zbdz i"
    using transform_above [of rprt _ k "ssw d" 0 zbdz] a t by simp
  from x i1 i2
  show "\<exists>zbdz'. xnvme_fioe_report_zones k (Some d) offset zbdz nr_zones = Some (sint nr_zones, zbdz') \<and>
               (\<forall>i < unat nr_zones. Inr (zbdz' i) = transform_descr k (ssw d) (descr rprt i) (zbdz i)) \<and>
               (\<forall>i \<ge> unat nr_zones. zbdz' i = zbdz i)"
    by blast
next
  assume "unat nr_zones < 2 ^ 31"
  then show "sint nr_zones = int (unat nr_zones)" by (rule sint_small)
qed

text \<open>
  Claim C8.  The claim says that a report whose number of entries differs from the requested
  count \<^verbatim>\<open>nr_zones\<close> is answered with an error.  The code sets \<^verbatim>\<open>err = 1\<close> there
  (line 703) and returns it: a positive value, where the caller reads a positive value as the
  number of zones reported and every other failure of the function returns a negative one
  (\<^verbatim>\<open>-errno\<close> when the report request fails, \<^verbatim>\<open>-EIO\<close> for a zone type that is not
  accepted).  With one zone requested, an empty report is answered with 1 and no descriptor
  written, and a report of one entry, which matches, is answered with 1 as well: the caller
  cannot tell the mismatch from the success.  A report of two entries for three zones requested
  is answered with 1 too, while a failed report request is answered with \<open>-5\<close>.
\<close>

theorem report_zones_mismatch_returns_one:
  "nentries (rprt_ex []) \<noteq> (1 :: 32 word) \<and>
   xnvme_fioe_report_zones zns_enum (Some (zdev_ex (rprt_ex []))) 0 zones0 1 = Some (1, zones0) \<and>
   nentries (rprt_ex [0x1]) = (1 :: 32 word) \<and>
   fst (the (xnvme_fioe_report_zones zns_enum (Some (zdev_ex (rprt_ex [0x1]))) 0 zones0 1)) = 1 \<and>
   cond (snd (the (xnvme_fioe_report_zones zns_enum (Some (zdev_ex (rprt_ex [0x1]))) 0 zones0 1)) 0)
     = ZBD_ZONE_COND_EMPTY \<and>
   xnvme_fioe_report_zones zns_enum (Some (zdev_ex (rprt_ex [0x1, 0xE]))) 0 zones0 3 = Some (1, zones0) \<and>
   xnvme_fioe_report_zones zns_enum (Some zdev_fail) 0 zones0 1 = Some (- 5, zones0)"
  by (simp add: zns_enum_def znd_states_def zdev_ex_def zdev_fail_def rprt_ex_def descr_of_def report_slba_def
      xnvme_fioe_report_zones_def report_zones_err_def transform_step transform_done transform_descr_def
      zs_cond_def zones0_def zone0_def)

section \<open>Properties of resetting write pointers\<close>

text \<open>
  Claim C5 says that \<^verbatim>\<open>xnvme_fioe_reset_wp\<close> sends one reset per zone overlapping the
  half-open byte range from \<open>offset\<close> up to \<open>offset + length\<close>.  The loop runs while
  \<^verbatim>\<open>zslba <= last\<close>, with \<^verbatim>\<open>last\<close> the aligned-down LBA of the byte
  \<open>offset + length\<close>, the first byte after the range.  With zones of four sectors of 512
  bytes, the range of the 2048 bytes of the first zone overlaps that zone only, and the loop
  resets the zones at LBA 0 and at LBA 4.
\<close>

theorem reset_wp_extra_zone:
  "xnvme_fioe_reset_wp mgmt_ok 9 4 0 2048 = Some (0, [0, 4]) \<and> overlapping_zones 9 4 0 2048 = [0]"
  by (simp add: xnvme_fioe_reset_wp_def reset_wp_loop.simps mgmt_ok_def overlapping_zones_def)


section \<open>Properties of queueing\<close>




section \<open>Properties of harvesting completions\<close>

subsection \<open>One turn of the loops\<close>

lemma cb_pool_frame:
  "cur (cb_pool x c) = cur x" "nallocated (cb_pool x c) = nallocated x" "prev (cb_pool x c) = prev x"
  by (simp_all add: cb_pool_def Let_def insert_head_def)

lemma foldl_cb_pool_frame:
  "cur (foldl cb_pool x cs) = cur x \<and> nallocated (foldl cb_pool x cs) = nallocated x \<and>
   prev (foldl cb_pool x cs) = prev x"
  by (induction cs arbitrary: x) (simp_all add: cb_pool_frame)

lemma poke_file_frame:
  "cur (g_xd (poke_file dev mx s)) = cur (g_xd s)"
  "nallocated (g_xd (poke_file dev mx s)) = nallocated (g_xd s)"
  "prev (g_xd (poke_file dev mx s)) = prev (g_xd s)"
  "g_fwrap_null (poke_file dev mx s) = g_fwrap_null s"
  by (simp_all add: poke_file_def Let_def foldl_cb_pool_frame)

lemma poll_files_exit:
  "g_fwrap_null s \<or> int (nallocated (g_xd s)) \<le> cur (g_xd s) \<or> g_err s < 0 \<Longrightarrow>
   poll_files ndebug dev mn mx s = Inr s"
  by (subst poll_files.simps) auto

lemma poll_files_return:
  "\<not> g_fwrap_null s \<Longrightarrow> 0 \<le> cur (g_xd s) \<Longrightarrow> cur (g_xd s) < int (nallocated (g_xd s)) \<Longrightarrow>
   0 \<le> g_err s \<Longrightarrow> \<not> poke_failed (g_err (poke_file dev mx s)) \<Longrightarrow>
   unat mn \<le> completed (g_xd (poke_file dev mx s)) \<Longrightarrow>
   poll_files ndebug dev mn mx s =
     Inl (Return (int (completed (g_xd (poke_file dev mx s))),
       (poke_file dev mx s)\<lparr>g_xd := (g_xd (poke_file dev mx s))\<lparr>prev := cur (g_xd (poke_file dev mx s))\<rparr>\<rparr>))"
  by (subst poll_files.simps) (simp add: Let_def)

lemma poll_files_next:
  "\<not> g_fwrap_null s \<Longrightarrow> 0 \<le> cur (g_xd s) \<Longrightarrow> cur (g_xd s) < int (nallocated (g_xd s)) \<Longrightarrow>
   0 \<le> g_err s \<Longrightarrow> \<not> poke_failed (g_err (poke_file dev mx s)) \<Longrightarrow>
   completed (g_xd (poke_file dev mx s)) < unat mn \<Longrightarrow>
   poll_files ndebug dev mn mx s = poll_files ndebug dev mn mx (next_file (poke_file dev mx s))"
  by (subst poll_files.simps) (simp add: Let_def)

lemma first_file_props:
  "g_fwrap_null s \<or> (0 \<le> cur (g_xd s) \<and> cur (g_xd s) \<le> int (nallocated (g_xd s))) \<Longrightarrow>
   0 < nallocated (g_xd s) \<Longrightarrow>
   \<not> g_fwrap_null (first_file s) \<and> 0 \<le> cur (g_xd (first_file s)) \<and>
   cur (g_xd (first_file s)) < int (nallocated (g_xd (first_file s))) \<and>
   nallocated (g_xd (first_file s)) = nallocated (g_xd s) \<and> g_err (first_file s) = g_err s"
  by (auto simp: first_file_def)

lemma next_file_props:
  "cur (g_xd (next_file s)) = cur (g_xd s) + 1" "nallocated (g_xd (next_file s)) = nallocated (g_xd s)"
  "g_fwrap_null (next_file s) = g_fwrap_null s" "g_err (next_file s) = g_err s"
  "completed (g_xd (next_file s)) = completed (g_xd s)" "g_pokes (next_file s) = g_pokes s"
  "prev (g_xd (next_file s)) = prev (g_xd s)"
  by (simp_all add: next_file_def)

lemma getevents_for_next:
  assumes v: "g_fwrap_null s \<or> (0 \<le> cur (g_xd s) \<and> cur (g_xd s) \<le> int (nallocated (g_xd s)))"
    and n: "0 < nallocated (g_xd s)"
    and e: "0 \<le> g_err s"
    and e1: "0 \<le> g_err (poke_file dev mx (first_file s))"
    and c: "completed (g_xd (poke_file dev mx (first_file s))) < unat mn"
  shows "getevents_for ndebug dev mn mx s =
         getevents_for ndebug dev mn mx (next_file (poke_file dev mx (first_file s)))"
proof -
  let ?s0 = "first_file s"
  let ?s2 = "next_file (poke_file dev mx ?s0)"
  from first_file_props [OF v n] e
  have f: "\<not> g_fwrap_null ?s0" "0 \<le> cur (g_xd ?s0)" "cur (g_xd ?s0) < int (nallocated (g_xd ?s0))"
    "0 \<le> g_err ?s0"
    by simp_all
  from e1 have nf: "\<not> poke_failed (g_err (poke_file dev mx ?s0))"
    by (simp add: poke_failed_def)
  have p: "poll_files ndebug dev mn mx ?s0 = poll_files ndebug dev mn mx ?s2"
    by (rule poll_files_next [OF f nf c])
  have l: "getevents_for ndebug dev mn mx s =
        (case poll_files ndebug dev mn mx ?s2 of Inl r \<Rightarrow> Some r
         | Inr s' \<Rightarrow> getevents_for ndebug dev mn mx s')"
    by (subst getevents_for.simps) (simp only: p)
  have c2: "cur (g_xd ?s2) = cur (g_xd ?s0) + 1" "nallocated (g_xd ?s2) = nallocated (g_xd ?s0)"
    "\<not> g_fwrap_null ?s2"
    using f by (simp_all add: next_file_props poke_file_frame)
  show ?thesis
  proof (cases "cur (g_xd ?s2) < int (nallocated (g_xd ?s2))")
    case True
    with c2 have "first_file ?s2 = ?s2" by (simp add: first_file_def)
    then have "getevents_for ndebug dev mn mx ?s2 =
        (case poll_files ndebug dev mn mx ?s2 of Inl r \<Rightarrow> Some r
         | Inr s' \<Rightarrow> getevents_for ndebug dev mn mx s')"
      by (subst getevents_for.simps) simp
    with l show ?thesis by simp
  next
    case False
    then have "poll_files ndebug dev mn mx ?s2 = Inr ?s2"
      by (intro poll_files_exit) simp
    with l show ?thesis by simp
  qed
qed

subsection \<open>Termination\<close>



lemma getevents_for_returns:
  assumes v: "g_fwrap_null s \<or> (0 \<le> cur (g_xd s) \<and> cur (g_xd s) \<le> int (nallocated (g_xd s)))"
    and n: "0 < nallocated (g_xd s)"
    and e: "0 \<le> g_err s"
    and before: "\<forall>i<k. 0 \<le> g_err (poke_file dev mx (first_file (polled dev mx i s))) \<and>
                  completed (g_xd (poke_file dev mx (first_file (polled dev mx i s)))) < unat mn"
    and nf: "\<not> poke_failed (g_err (poke_file dev mx (first_file (polled dev mx k s))))"
    and c: "unat mn \<le> completed (g_xd (poke_file dev mx (first_file (polled dev mx k s))))"
  shows "getevents_for ndebug dev mn mx s =
     Some (Return (int (completed (g_xd (poke_file dev mx (first_file (polled dev mx k s))))),
       (poke_file dev mx (first_file (polled dev mx k s)))
         \<lparr>g_xd := (g_xd (poke_file dev mx (first_file (polled dev mx k s))))
            \<lparr>prev := cur (g_xd (poke_file dev mx (first_file (polled dev mx k s))))\<rparr>\<rparr>))"
  using v n e before nf c
proof (induction k arbitrary: s)
  case 0
  from first_file_props [OF "0.prems"(1,2)] "0.prems"(3)
  have f: "\<not> g_fwrap_null (first_file s)" "0 \<le> cur (g_xd (first_file s))"
    "cur (g_xd (first_file s)) < int (nallocated (g_xd (first_file s)))" "0 \<le> g_err (first_file s)"
    by simp_all
  from "0.prems"(5,6) have "\<not> poke_failed (g_err (poke_file dev mx (first_file s)))"
    "unat mn \<le> completed (g_xd (poke_file dev mx (first_file s)))" by simp_all
  from poll_files_return [OF f this, of ndebug] show ?case
    by (subst getevents_for.simps) simp
next
  case (Suc k)
  let ?s2 = "next_file (poke_file dev mx (first_file s))"
  from Suc.prems(4) have b0: "0 \<le> g_err (poke_file dev mx (first_file s))"
    "completed (g_xd (poke_file dev mx (first_file s))) < unat mn"
    by (auto dest: spec [of _ 0])
  have step: "getevents_for ndebug dev mn mx s = getevents_for ndebug dev mn mx ?s2"
    by (rule getevents_for_next [OF Suc.prems(1,2,3) b0])
  from first_file_props [OF Suc.prems(1,2)]
  have f: "\<not> g_fwrap_null (first_file s)" "0 \<le> cur (g_xd (first_file s))"
    "cur (g_xd (first_file s)) < int (nallocated (g_xd (first_file s)))"
    "nallocated (g_xd (first_file s)) = nallocated (g_xd s)"
    by simp_all
  have v2: "g_fwrap_null ?s2 \<or> (0 \<le> cur (g_xd ?s2) \<and> cur (g_xd ?s2) \<le> int (nallocated (g_xd ?s2)))"
    using f by (simp add: next_file_props poke_file_frame)
  have n2: "0 < nallocated (g_xd ?s2)"
    using f Suc.prems(2) by (simp add: next_file_props poke_file_frame)
  have e2: "0 \<le> g_err ?s2" using b0 by (simp add: next_file_props)
  have before2: "\<forall>i<k. 0 \<le> g_err (poke_file dev mx (first_file (polled dev mx i ?s2))) \<and>
                  completed (g_xd (poke_file dev mx (first_file (polled dev mx i ?s2)))) < unat mn"
  proof (intro allI impI)
    fix i assume "i < k"
    then have "Suc i < Suc k" by simp
    with Suc.prems(4) show "0 \<le> g_err (poke_file dev mx (first_file (polled dev mx i ?s2))) \<and>
                  completed (g_xd (poke_file dev mx (first_file (polled dev mx i ?s2)))) < unat mn"
      by (auto dest!: spec [of _ "Suc i"])
  qed
  from Suc.IH [OF v2 n2 e2 before2] Suc.prems(5,6) step show ?case by simp
qed

lemma getevents_start_props:
  "- 1 \<le> prev x \<Longrightarrow>
   (g_fwrap_null (getevents_start x) \<or>
      (0 \<le> cur (g_xd (getevents_start x)) \<and>
       cur (g_xd (getevents_start x)) \<le> int (nallocated (g_xd (getevents_start x))))) \<and>
   nallocated (g_xd (getevents_start x)) = nallocated x \<and> g_err (getevents_start x) = 0 \<and>
   g_pokes (getevents_start x) = [] \<and> completed (g_xd (getevents_start x)) = 0"
  by (simp add: getevents_start_def)


lemma gev_ex_facts:
  "\<forall>i<2. 0 \<le> g_err (poke_file (poke_at 2) 8 (first_file (polled (poke_at 2) 8 i (getevents_start (engine3 1))))) \<and>
        completed (g_xd (poke_file (poke_at 2) 8 (first_file (polled (poke_at 2) 8 i (getevents_start (engine3 1)))))) < unat (1 :: 32 word)"
  "g_err gev_ex = 1" "completed (g_xd gev_ex) = 1" "map fst (g_pokes gev_ex) = [2, 0, 1]"
  "cur (g_xd gev_ex) = 1"
proof -
  have cb: "completed (cb_pool x c) = Suc (completed x)" for x c
    by (simp add: cb_pool_def Let_def insert_head_def)
  define s0 where "s0 = getevents_start (engine3 1)"
  define s1 where "s1 = next_file (poke_file (poke_at 2) 8 (first_file s0))"
  define s2 where "s2 = next_file (poke_file (poke_at 2) 8 (first_file s1))"
  have f0: "first_file s0 = s0" "g_pokes s0 = []" "cur (g_xd s0) = 2" "completed (g_xd s0) = 0"
    "nallocated (g_xd s0) = 3" "\<not> g_fwrap_null s0"
    by (simp_all add: s0_def first_file_def getevents_start_def engine3_def)
  have p0: "g_err (poke_file (poke_at 2) 8 s0) = 0" "completed (g_xd (poke_file (poke_at 2) 8 s0)) = 0"
    "g_pokes (poke_file (poke_at 2) 8 s0) = [(2, 8)]"
    by (simp_all add: poke_file_def poke_at_def f0)
  have f1: "cur (g_xd s1) = 3" "completed (g_xd s1) = 0" "g_pokes s1 = [(2, 8)]"
    "nallocated (g_xd s1) = 3" "\<not> g_fwrap_null s1"
    by (simp_all add: s1_def f0 p0 next_file_props poke_file_frame)
  have ff1: "cur (g_xd (first_file s1)) = 0" "completed (g_xd (first_file s1)) = 0"
    "g_pokes (first_file s1) = [(2, 8)]" "nallocated (g_xd (first_file s1)) = 3"
    "\<not> g_fwrap_null (first_file s1)"
    by (simp_all add: first_file_def f1)
  have p1: "g_err (poke_file (poke_at 2) 8 (first_file s1)) = 0"
    "completed (g_xd (poke_file (poke_at 2) 8 (first_file s1))) = 0"
    "g_pokes (poke_file (poke_at 2) 8 (first_file s1)) = [(2, 8), (0, 8)]"
    by (simp_all add: poke_file_def poke_at_def ff1)
  have f2: "cur (g_xd s2) = 1" "completed (g_xd s2) = 0" "g_pokes s2 = [(2, 8), (0, 8)]"
    "nallocated (g_xd s2) = 3" "\<not> g_fwrap_null s2"
    by (simp_all add: s2_def ff1 p1 next_file_props poke_file_frame)
  have ff2: "first_file s2 = s2" by (simp add: first_file_def f2)
  have pol: "polled (poke_at 2) 8 0 s0 = s0" "polled (poke_at 2) 8 (Suc 0) s0 = s1"
    "polled (poke_at 2) 8 2 s0 = s2"
    by (simp_all add: s1_def s2_def numeral_2_eq_2)
  have g: "gev_ex = poke_file (poke_at 2) 8 s2"
    using pol ff2 by (simp add: gev_ex_def s0_def [symmetric])
  show "g_err gev_ex = 1" "completed (g_xd gev_ex) = 1" "map fst (g_pokes gev_ex) = [2, 0, 1]"
    "cur (g_xd gev_ex) = 1"
    by (simp_all add: g poke_file_def poke_at_def f2 cb cb_pool_frame)
  show "\<forall>i<2. 0 \<le> g_err (poke_file (poke_at 2) 8 (first_file (polled (poke_at 2) 8 i (getevents_start (engine3 1))))) \<and>
        completed (g_xd (poke_file (poke_at 2) 8 (first_file (polled (poke_at 2) 8 i (getevents_start (engine3 1)))))) < unat (1 :: 32 word)"
  proof (intro allI impI)
    fix i :: nat assume "i < 2"
    then have "i = 0 \<or> i = Suc 0" by arith
    then show "0 \<le> g_err (poke_file (poke_at 2) 8 (first_file (polled (poke_at 2) 8 i (getevents_start (engine3 1))))) \<and>
        completed (g_xd (poke_file (poke_at 2) 8 (first_file (polled (poke_at 2) 8 i (getevents_start (engine3 1)))))) < unat (1 :: 32 word)"
      using pol f0 p0 p1 by (auto simp: s0_def [symmetric])
  qed
qed

lemma gev_ex_run:
  "xnvme_fioe_getevents True (poke_at 2) (engine3 1) 1 8 False =
     Some (Return (1, gev_ex\<lparr>g_xd := (g_xd gev_ex)\<lparr>prev := 1\<rparr>\<rparr>))"
proof -
  note sp = getevents_start_props [of "engine3 1"]
  have p: "- 1 \<le> prev (engine3 1)" by (simp add: engine3_def)
  from sp [OF p] have v: "g_fwrap_null (getevents_start (engine3 1)) \<or>
      (0 \<le> cur (g_xd (getevents_start (engine3 1))) \<and>
       cur (g_xd (getevents_start (engine3 1))) \<le> int (nallocated (g_xd (getevents_start (engine3 1)))))"
    by blast
  from sp [OF p] have n: "0 < nallocated (g_xd (getevents_start (engine3 1)))"
    by (simp add: engine3_def)
  from sp [OF p] have e: "0 \<le> g_err (getevents_start (engine3 1))" by simp
  have nf: "\<not> poke_failed (g_err (poke_file (poke_at 2) 8 (first_file (polled (poke_at 2) 8 2 (getevents_start (engine3 1))))))"
    using gev_ex_facts(2) by (simp add: gev_ex_def poke_failed_def)
  have c: "unat (1 :: 32 word) \<le> completed (g_xd (poke_file (poke_at 2) 8 (first_file (polled (poke_at 2) 8 2 (getevents_start (engine3 1))))))"
    using gev_ex_facts(3) by (simp add: gev_ex_def)
  from getevents_for_returns [OF v n e gev_ex_facts(1) nf c, of True] gev_ex_facts
  show ?thesis
    by (simp add: xnvme_fioe_getevents_def gev_ex_def [symmetric])
qed


subsection \<open>Polling in turn\<close>

lemma round_robin_snoc:
  "round_robin N st fs \<Longrightarrow> f = (st + length fs) mod N \<Longrightarrow> round_robin N st (fs @ [f])"
  by (simp add: round_robin_def)

lemma poke_file_pokes:
  "g_pokes (poke_file dev mx s) =
     g_pokes s @ [(nat (cur (g_xd s)), mx - of_nat (completed (g_xd s)))]"
  by (simp add: poke_file_def Let_def)

lemma poll_files_inv:
  "poll_inv N st s \<Longrightarrow> \<not> g_fwrap_null s \<Longrightarrow>
   (\<forall>s'. poll_files ndebug dev mn mx s = Inr s' \<longrightarrow> poll_inv N st s' \<and> \<not> g_fwrap_null s') \<and>
   (\<forall>n g. poll_files ndebug dev mn mx s = Inl (Return (n, g)) \<longrightarrow> \<not> poke_failed (g_err g) \<longrightarrow>
      poll_post N st mn n g)"
proof (induction ndebug dev mn mx s rule: poll_files.induct)
  case (1 ndebug dev mn mx s)
  show ?case
  proof (cases "cur (g_xd s) < int (nallocated (g_xd s)) \<and> 0 \<le> g_err s")
    case False
    with "1.prems" have "poll_files ndebug dev mn mx s = Inr s"
      by (intro poll_files_exit) auto
    with "1.prems" show ?thesis by simp
  next
    case True
    note c = True "1.prems"(2)
    from "1.prems" have inv: "nallocated (g_xd s) = N" "0 < N"
      "round_robin N st (map fst (g_pokes s))" "0 \<le> cur (g_xd s)" "cur (g_xd s) \<le> int N"
      "nat (cur (g_xd s)) mod N = (st + length (g_pokes s)) mod N"
      by (simp_all add: poll_inv_def)
    let ?s1 = "poke_file dev mx s"
    from inv True have lt: "nat (cur (g_xd s)) < N" by linarith
    with inv have turn: "nat (cur (g_xd s)) = (st + length (g_pokes s)) mod N" by simp
    have rr1: "round_robin N st (map fst (g_pokes ?s1))"
      using round_robin_snoc [OF inv(3), of "nat (cur (g_xd s))"] turn
      by (simp add: poke_file_pokes)
    show ?thesis
    proof (cases "poke_failed (g_err ?s1)")
      case True
      with c inv show ?thesis
        by (subst poll_files.simps, subst (2) poll_files.simps) (simp add: Let_def)
    next
      case nf: False
      show ?thesis
      proof (cases "unat mn \<le> completed (g_xd ?s1)")
        case True
        have "poll_post N st mn (int (completed (g_xd ?s1)))
                (?s1\<lparr>g_xd := (g_xd ?s1)\<lparr>prev := cur (g_xd ?s1)\<rparr>\<rparr>)"
          using rr1 True inv by (simp add: poll_post_def poke_file_pokes poke_file_frame)
        with poll_files_return [OF c(2) inv(4) _ _ nf True, of ndebug] c show ?thesis
          by simp
      next
        case False
        then have lt': "completed (g_xd ?s1) < unat mn" by simp
        have eq: "poll_files ndebug dev mn mx s = poll_files ndebug dev mn mx (next_file ?s1)"
          using poll_files_next [OF c(2) inv(4) _ _ nf lt', of ndebug] c by simp
        have "(nat (cur (g_xd s)) + 1) mod N = ((st + length (g_pokes s)) + 1) mod N"
          using inv(6) by (metis mod_add_left_eq)
        with inv lt have inv2: "poll_inv N st (next_file ?s1)"
          using rr1 c
          by (simp add: poll_inv_def next_file_props poke_file_frame poke_file_pokes nat_add_distrib)
        have nn: "\<not> g_fwrap_null (next_file ?s1)"
          using c by (simp add: next_file_props poke_file_frame)
        from "1.IH" [OF _ _ refl nf False inv2 nn] c inv show ?thesis
          unfolding eq by simp
      qed
    qed
  qed
qed

lemma first_file_inv:
  "poll_inv N st s \<Longrightarrow> poll_inv N st (first_file s) \<and> \<not> g_fwrap_null (first_file s)"
  by (auto simp: poll_inv_def first_file_def split: if_splits)

lemma getevents_for_post:
  assumes "getevents_for ndebug dev mn mx s = Some y"
  shows "\<forall>N st. poll_inv N st s \<longrightarrow>
     (\<forall>n g. y = Return (n, g) \<longrightarrow> \<not> poke_failed (g_err g) \<longrightarrow> poll_post N st mn n g)"
proof (rule getevents_for.raw_induct [where P = "\<lambda>ndebug dev mn mx s y.
     \<forall>N st. poll_inv N st s \<longrightarrow>
       (\<forall>n g. y = Return (n, g) \<longrightarrow> \<not> poke_failed (g_err g) \<longrightarrow> poll_post N st mn n g)", OF _ assms])
  fix f ndebug dev mn mx s y
  assume IH: "\<And>ndebug dev mn mx s y. f ndebug dev mn mx s = Some y \<Longrightarrow>
       \<forall>N st. poll_inv N st s \<longrightarrow>
         (\<forall>n g. y = Return (n, g) \<longrightarrow> \<not> poke_failed (g_err g) \<longrightarrow> poll_post N st mn n g)"
    and hyp: "(case poll_files ndebug dev mn mx (first_file s) of Inl r \<Rightarrow> Some r
      | Inr s' \<Rightarrow> f ndebug dev mn mx s') = Some y"
  show "\<forall>N st. poll_inv N st s \<longrightarrow>
       (\<forall>n g. y = Return (n, g) \<longrightarrow> \<not> poke_failed (g_err g) \<longrightarrow> poll_post N st mn n g)"
  proof (intro allI impI)
    fix N st n g
    assume inv: "poll_inv N st s" and y: "y = Return (n, g)" and nf: "\<not> poke_failed (g_err g)"
    from first_file_inv [OF inv]
    have i0: "poll_inv N st (first_file s)" "\<not> g_fwrap_null (first_file s)" by simp_all
    note pf = poll_files_inv [OF i0, of ndebug dev mn mx]
    show "poll_post N st mn n g"
    proof (cases "poll_files ndebug dev mn mx (first_file s)")
      case (Inl r)
      with hyp y have "poll_files ndebug dev mn mx (first_file s) = Inl (Return (n, g))" by simp
      with pf nf show ?thesis by blast
    next
      case (Inr s')
      with pf have "poll_inv N st s'" by blast
      moreover from Inr hyp have "f ndebug dev mn mx s' = Some y" by simp
      ultimately show ?thesis using IH y nf by blast
    qed
  qed
qed

lemma getevents_start_inv:
  assumes p: "- 1 \<le> prev x" "prev x < int (nallocated x)" and n: "0 < nallocated x"
  shows "poll_inv (nallocated x) (if prev x = - 1 then 0 else nat ((prev x + 1) mod int (nallocated x)))
           (getevents_start x)"
proof (cases "prev x = - 1")
  case True
  with n show ?thesis by (simp add: poll_inv_def getevents_start_def round_robin_def)
next
  case False
  with p have nn: "0 \<le> prev x + 1" "prev x + 1 \<le> int (nallocated x)" by simp_all
  show ?thesis
  proof (cases "prev x + 1 < int (nallocated x)")
    case True
    with nn have "(prev x + 1) mod int (nallocated x) = prev x + 1" by simp
    with False True nn n show ?thesis
      by (simp add: poll_inv_def getevents_start_def round_robin_def)
  next
    case f: False
    with nn have "prev x + 1 = int (nallocated x)" by simp
    then have "(prev x + 1) mod int (nallocated x) = 0" by simp
    with False f n show ?thesis
      by (simp add: poll_inv_def getevents_start_def round_robin_def)
  qed
qed

text \<open>
  Claim C4.  A call of \<^verbatim>\<open>xnvme_fioe_getevents\<close> that returns through the test of
  the number of completions has polled at least one file.  The first file polled is the one
  after the file recorded in \<^verbatim>\<open>xd->prev\<close> by the call before, the first file again
  after the last one (and the first file when no call came before); the files are polled in
  turn, each the one after the file polled before it, wrapping to 0; and on return
  \<^verbatim>\<open>xd->prev\<close> records the file polled last, the one whose completions brought the
  number collected to \<open>min\<close>, which is the number returned.  So the next call starts with
  the file after that one, and the polls of successive calls go round all files.
\<close>

theorem getevents_round_robin:
  assumes r: "xnvme_fioe_getevents ndebug dev x mn mx t = Some (Return (n, g))"
    and nf: "\<not> poke_failed (g_err g)"
    and p: "- 1 \<le> prev x" "prev x < int (nallocated x)" and na: "0 < nallocated x"
    and st: "st = (if prev x = - 1 then 0 else nat ((prev x + 1) mod int (nallocated x)))"
  shows "g_pokes g \<noteq> [] \<and> fst (hd (g_pokes g)) = st \<and>
     map fst (g_pokes g) = map (\<lambda>i. (st + i) mod nallocated x) [0 ..< length (g_pokes g)] \<and>
     prev (g_xd g) = int (fst (last (g_pokes g))) \<and>
     unat mn \<le> completed (g_xd g) \<and> n = int (completed (g_xd g))"
proof -
  from r have "getevents_for ndebug dev mn mx (getevents_start x) = Some (Return (n, g))"
    by (simp add: xnvme_fioe_getevents_def split: if_splits)
  from getevents_for_post [OF this] getevents_start_inv [OF p na] nf st
  have post: "poll_post (nallocated x) st mn n g" by blast
  then have ne: "g_pokes g \<noteq> []"
    and rr: "map fst (g_pokes g) = map (\<lambda>i. (st + i) mod nallocated x) [0 ..< length (g_pokes g)]"
    by (simp_all add: poll_post_def round_robin_def)
  from p na have "st < nallocated x" unfolding st by (simp add: nat_less_iff)
  moreover from ne have "hd (map fst (g_pokes g)) = fst (hd (g_pokes g))" by (simp add: hd_map)
  moreover from ne have "hd (map (\<lambda>i. (st + i) mod nallocated x) [0 ..< length (g_pokes g)]) = (st + 0) mod nallocated x"
    by (simp add: hd_map upt_conv_Cons)
  ultimately have "fst (hd (g_pokes g)) = st" using rr by simp
  with post rr ne show ?thesis by (simp add: poll_post_def)
qed

theorem getevents_round_robin_witness:
  "\<exists>g. xnvme_fioe_getevents True (poke_at 2) (engine3 1) 1 8 False = Some (Return (1, g)) \<and>
     fst (hd (g_pokes g)) = 2 \<and> map fst (g_pokes g) = [2, 0, 1] \<and> prev (g_xd g) = 1 \<and>
     completed (g_xd g) = 1"
proof -
  let ?g = "gev_ex\<lparr>g_xd := (g_xd gev_ex)\<lparr>prev := 1\<rparr>\<rparr>"
  have nf: "\<not> poke_failed (g_err ?g)" using gev_ex_facts(2) by (simp add: poke_failed_def)
  have p: "- 1 \<le> prev (engine3 1)" "prev (engine3 1) < int (nallocated (engine3 1))"
    "0 < nallocated (engine3 1)"
    by (simp_all add: engine3_def)
  from getevents_round_robin [OF gev_ex_run nf p refl] gev_ex_facts(4) gev_ex_run
  show ?thesis by (simp add: engine3_def)
qed

section \<open>Properties of the example\<close>

subsection \<open>What the calls of the library change\<close>

lemma cb_pool_drive_frame:
  "d_pc (cb_pool_drive s c) = d_pc s" "d_sect (cb_pool_drive s c) = d_sect s"
  "d_req (cb_pool_drive s c) = d_req s" "d_err (cb_pool_drive s c) = d_err s"
  "d_inflight (cb_pool_drive s c) = d_inflight s" "d_calls (cb_pool_drive s c) = d_calls s"
  "d_submitted (cb_pool_drive s c) = d_submitted s" "d_ecount s \<le> d_ecount (cb_pool_drive s c)"
  by (simp_all add: cb_pool_drive_def)

lemma foldl_cb_pool_drive_frame:
  "d_pc (foldl cb_pool_drive s cs) = d_pc s \<and> d_sect (foldl cb_pool_drive s cs) = d_sect s \<and>
   d_req (foldl cb_pool_drive s cs) = d_req s \<and> d_err (foldl cb_pool_drive s cs) = d_err s \<and>
   d_inflight (foldl cb_pool_drive s cs) = d_inflight s \<and>
   d_calls (foldl cb_pool_drive s cs) = d_calls s \<and>
   d_submitted (foldl cb_pool_drive s cs) = d_submitted s \<and>
   d_ecount s \<le> d_ecount (foldl cb_pool_drive s cs)"
proof (induction cs arbitrary: s)
  case Nil
  show ?case by simp
next
  case (Cons c cs)
  from Cons [of "cb_pool_drive s c"] cb_pool_drive_frame(8) [of s c] show ?case
    by (simp add: cb_pool_drive_frame(1-7))
qed

lemma complete_frame:
  "d_pc (complete k s) = d_pc s" "d_sect (complete k s) = d_sect s"
  "d_req (complete k s) = d_req s" "d_err (complete k s) = d_err s"
  "d_inflight (complete k s) = drop k (d_inflight s)" "d_calls (complete k s) = d_calls s"
  "d_submitted (complete k s) = d_submitted s" "d_ecount s \<le> d_ecount (complete k s)"
  using foldl_cb_pool_drive_frame [of s "take k (d_inflight s)"]
  by (simp_all add: complete_def)

lemma wait_props:
  "d_pc (wait l s) = d_pc s" "d_sect (wait l s) = d_sect s" "d_req (wait l s) = d_req s"
  "d_err (wait l s) = ret l (length (d_calls s))"
  "d_inflight (wait l s) = (if ret l (length (d_calls s)) < 0 then d_inflight s else [])"
  "d_calls (wait l s) = d_calls s @ [Wait (ret l (length (d_calls s)))
     (map snd (take (if ret l (length (d_calls s)) < 0 then 0 else length (d_inflight s)) (d_inflight s)))]"
  "d_ecount s \<le> d_ecount (wait l s)"
  using complete_frame(8) [of s "if ret l (length (d_calls s)) < 0 then 0 else length (d_inflight s)"]
  by (simp_all add: wait_def Let_def complete_frame)

lemma poke_props:
  "d_pc (poke l s) = d_pc s" "d_sect (poke l s) = d_sect s" "d_req (poke l s) = d_req s"
  "d_err (poke l s) = d_err s"
  "d_inflight (poke l s) = drop (ndone l (length (d_calls s))) (d_inflight s)"
  "d_calls (poke l s) = d_calls s @
     [Poke (map snd (take (min (ndone l (length (d_calls s))) (length (d_inflight s))) (d_inflight s)))]"
  "d_ecount s \<le> d_ecount (poke l s)"
  using complete_frame(8) [of s "min (ndone l (length (d_calls s))) (length (d_inflight s))"]
  by (simp_all add: poke_def Let_def complete_frame min_def)

lemma submit_props:
  "d_pc (submit l qd s) = d_pc s" "d_sect (submit l qd s) = d_sect s" "d_req (submit l qd s) = d_req s"
  "d_ecount (submit l qd s) = d_ecount s" "d_head (submit l qd s) = d_head s"
  "d_calls (submit l qd s) = d_calls s @ [Submit (d_sect s) (d_req s) (d_err (submit l qd s))]"
  "d_inflight (submit l qd s) =
     (if d_err (submit l qd s) = 0 then d_inflight s @ [(d_req s, status l (length (d_calls s)))]
      else d_inflight s)"
  "unat qd \<le> length (d_inflight s) \<Longrightarrow> d_err (submit l qd s) = - EBUSY"
  by (simp_all add: submit_def Let_def)

lemma run_induct:
  assumes "P drive_start" and "\<And>s. P s \<Longrightarrow> P (step op l qdepth zone_zcap s)"
  shows "P (run op l qdepth zone_zcap n)"
  by (induction n) (simp_all add: assms)


subsection \<open>Commands in flight\<close>

lemma queue_depth_pos: "1 \<le> unat (queue_depth qdepth)"
proof -
  have "queue_depth qdepth \<noteq> 0" by (simp add: queue_depth_def)
  then have "unat (queue_depth qdepth) \<noteq> 0" by (simp add: unat_eq_0)
  then show ?thesis by simp
qed

lemma pipeline_inv_step:
  assumes "pipeline_inv op qdepth s"
  shows "pipeline_inv op qdepth (step op l qdepth zone_zcap s)"
proof (cases "d_pc s")
  case L_init
  with assms show ?thesis
    by (auto simp: pipeline_inv_def step_def init_ctx_def)
next
  case L_for
  with assms show ?thesis
    by (auto simp: pipeline_inv_def step_def split: list.splits)
next
  case L_submit
  let ?s1 = "submit l (queue_depth qdepth) s"
  note sp = submit_props [where l = l and qd = "queue_depth qdepth" and s = s]
  show ?thesis
  proof (cases "d_err ?s1 = 0")
    case True
    then have "\<not> unat (queue_depth qdepth) \<le> length (d_inflight s)"
      using sp(8) by (auto simp: EBUSY_def)
    with True assms L_submit show ?thesis
      using queue_depth_pos [of qdepth]
      by (auto simp: pipeline_inv_def step_def Let_def sp(1,6,7))
  next
    case False
    with assms L_submit show ?thesis
      by (auto simp: pipeline_inv_def step_def Let_def sp(1,6,7) poke_props)
  qed
next
  case L_next
  with assms show ?thesis
    by (auto simp: pipeline_inv_def step_def Let_def wait_props)
next
  case L_after
  with assms show ?thesis
    by (auto simp: pipeline_inv_def step_def Let_def wait_props split: option.splits)
next
  case L_exit
  with assms show ?thesis by (simp add: step_def)
next
  case L_trap
  with assms show ?thesis by (simp add: step_def)
qed

lemma pipeline_inv_run: "pipeline_inv op qdepth (run op l qdepth zone_zcap n)"
  by (rule run_induct) (simp_all add: pipeline_inv_step, simp add: pipeline_inv_def drive_start_def)

text \<open>
  Claim C2 as stated fails for the append: \<^verbatim>\<open>sub_async_append\<close> does not wait at the
  label \<^verbatim>\<open>next\<close>.  At queue depth 2 the second append is submitted while the first is
  in flight, with no wait between the two.
\<close>

theorem append_pipelined_counterexample:
  "d_calls (run Append lib_ok 2 2 6) =
     [Async_init 2 0, Req_pool_alloc 3, Req_pool_init, Submit 0 0 0, Submit 1 1 0] \<and>
   d_inflight (run Append lib_ok 2 2 6) = [(0, 0), (1, 0)]"
  by code_simp


text \<open>
  Claim C2, as the code has it.  At every step of a run, whatever the library answers: no more
  commands are in flight than the queue depth.  For the write, no command is in flight when
  the loop is about to submit one (the loop has waited for the context after the submission
  before), so at most one write is in flight at any time.  For the read and for the append,
  the loop has made no call of \<^verbatim>\<open>xnvme_async_wait\<close> as long as it is in the loop:
  their commands are submitted one after the other and are in flight together, up to the queue
  depth.
\<close>

theorem write_waits_read_append_pipeline:
  "length (d_inflight (run op l qdepth zone_zcap n)) \<le> unat (queue_depth qdepth) \<and>
   (op = Write \<longrightarrow>
      length (d_inflight (run op l qdepth zone_zcap n)) \<le> 1 \<and>
      (d_pc (run op l qdepth zone_zcap n) = L_submit \<longrightarrow> d_inflight (run op l qdepth zone_zcap n) = [])) \<and>
   (op \<noteq> Write \<longrightarrow> d_pc (run op l qdepth zone_zcap n) \<in> {L_for, L_submit, L_next} \<longrightarrow>
      \<not> list_ex is_wait (d_calls (run op l qdepth zone_zcap n)))"
  using pipeline_inv_run [of op qdepth l zone_zcap n]
  by (simp add: pipeline_inv_def)

theorem write_waits_read_append_pipeline_witness:
  "length (d_inflight (run Write lib_ok 2 2 3)) = 1 \<and>
   d_pc (run Write lib_ok 2 2 5) = L_submit \<and> d_inflight (run Write lib_ok 2 2 5) = [] \<and>
   d_pc (run Read lib_ok 2 2 6) = L_next \<and> length (d_inflight (run Read lib_ok 2 2 6)) = 2 \<and>
   \<not> list_ex is_wait (d_calls (run Read lib_ok 2 2 6))"
proof -
  have a: "length (d_inflight (run Write lib_ok 2 2 3)) = 1" by code_simp
  have b: "d_pc (run Write lib_ok 2 2 5) = L_submit" by code_simp
  have c: "d_pc (run Read lib_ok 2 2 6) = L_next" by code_simp
  have d: "length (d_inflight (run Read lib_ok 2 2 6)) = 2" by code_simp
  from write_waits_read_append_pipeline [of Write lib_ok 2 2 5]
    write_waits_read_append_pipeline [of Read lib_ok 2 2 6] a b c d
  show ?thesis by simp
qed


subsection \<open>Completions that carry an error\<close>





subsection \<open>The size of the request pool\<close>

lemma setup_invI:
  "d_calls s = pre @ rest \<Longrightarrow> list_all loop_call rest \<Longrightarrow>
   pre \<in> {[], [Async_init qd 0], [Async_init qd 0, Req_pool_alloc (qd + 1)],
                [Async_init qd 0, Req_pool_alloc (qd + 1), Req_pool_init]} \<Longrightarrow>
   (d_pc s = L_init \<longrightarrow> d_calls s = []) \<Longrightarrow>
   (d_pc s \<in> {L_for, L_submit, L_next, L_after, L_trap} \<longrightarrow>
           pre = [Async_init qd 0, Req_pool_alloc (qd + 1), Req_pool_init]) \<Longrightarrow>
   setup_inv qd s"
  unfolding setup_inv_def by blast

lemma setup_inv_append:
  assumes "setup_inv qd s" and "d_pc s \<noteq> L_init" and "d_calls s' = d_calls s @ new"
    and "list_all loop_call new"
    and "d_pc s \<notin> {L_for, L_submit, L_next, L_after, L_trap} \<longrightarrow>
         d_pc s' \<notin> {L_init, L_for, L_submit, L_next, L_after, L_trap}"
    and "d_pc s' \<noteq> L_init"
  shows "setup_inv qd s'"
proof -
  from assms(1) obtain pre rest where p: "d_calls s = pre @ rest" "list_all loop_call rest"
    "pre \<in> {[], [Async_init qd 0], [Async_init qd 0, Req_pool_alloc (qd + 1)],
                [Async_init qd 0, Req_pool_alloc (qd + 1), Req_pool_init]}"
    "d_pc s \<in> {L_for, L_submit, L_next, L_after, L_trap} \<longrightarrow>
           pre = [Async_init qd 0, Req_pool_alloc (qd + 1), Req_pool_init]"
    unfolding setup_inv_def by blast
  have "d_calls s' = pre @ (rest @ new)" using p(1) assms(3) by simp
  moreover have "list_all loop_call (rest @ new)" using p(2) assms(4) by simp
  moreover have "d_pc s' \<in> {L_for, L_submit, L_next, L_after, L_trap} \<longrightarrow>
           pre = [Async_init qd 0, Req_pool_alloc (qd + 1), Req_pool_init]"
    using p(4) assms(5) by blast
  ultimately show ?thesis
    unfolding setup_inv_def using p(3) assms(6) by blast
qed

lemma setup_inv_step:
  assumes "setup_inv (queue_depth qdepth) s"
  shows "setup_inv (queue_depth qdepth) (step op l qdepth zone_zcap s)"
proof (cases "d_pc s")
  case L_init
  with assms have c: "d_calls s = []" unfolding setup_inv_def by blast
  let ?qd = "queue_depth qdepth"
  let ?s' = "step op l qdepth zone_zcap s"
  from L_init have s': "?s' = init_ctx l ?qd s" by (simp add: step_def)
  have "d_calls ?s' = [Async_init ?qd 0] @ [] \<and> d_pc ?s' = L_exit \<or>
     d_calls ?s' = [Async_init ?qd 0, Req_pool_alloc (?qd + 1)] @ [] \<and> d_pc ?s' = L_exit \<or>
     d_calls ?s' = [Async_init ?qd 0, Req_pool_alloc (?qd + 1), Req_pool_init] @ [] \<and>
       d_pc ?s' \<noteq> L_init"
    unfolding s' by (simp add: init_ctx_def)
  then show ?thesis
  proof (elim disjE conjE)
    assume a: "d_calls ?s' = [Async_init ?qd 0] @ []" and b: "d_pc ?s' = L_exit"
    show ?thesis by (rule setup_invI [OF a]) (simp_all add: b)
  next
    assume a: "d_calls ?s' = [Async_init ?qd 0, Req_pool_alloc (?qd + 1)] @ []"
      and b: "d_pc ?s' = L_exit"
    show ?thesis by (rule setup_invI [OF a]) (simp_all add: b)
  next
    assume a: "d_calls ?s' = [Async_init ?qd 0, Req_pool_alloc (?qd + 1), Req_pool_init] @ []"
      and b: "d_pc ?s' \<noteq> L_init"
    show ?thesis by (rule setup_invI [OF a]) (simp_all add: b)
  qed
next
  case L_for
  with assms show ?thesis
    by (intro setup_inv_append [OF assms, of _ "[]"]) (auto simp: step_def split: list.splits)
next
  case L_submit
  let ?s1 = "submit l (queue_depth qdepth) s"
  note sp = submit_props [where l = l and qd = "queue_depth qdepth" and s = s]
  show ?thesis
  proof (cases "d_err ?s1 = - EBUSY \<or> d_err ?s1 = - EAGAIN")
    case True
    then have "d_err ?s1 \<noteq> 0" by (auto simp: EBUSY_def EAGAIN_def)
    with True L_submit have "step op l qdepth zone_zcap s = poke l ?s1"
      by (simp add: step_def Let_def)
    with L_submit show ?thesis
      by (intro setup_inv_append [OF assms, of _ "[Submit (d_sect s) (d_req s) (d_err ?s1),
           Poke (map snd (take (min (ndone l (length (d_calls ?s1))) (length (d_inflight ?s1))) (d_inflight ?s1)))]"])
         (simp_all add: poke_props sp)
  next
    case False
    with L_submit show ?thesis
      by (intro setup_inv_append [OF assms, of _ "[Submit (d_sect s) (d_req s) (d_err ?s1)]"])
         (auto simp: step_def Let_def sp)
  qed
next
  case L_next
  show ?thesis
  proof (cases "op = Write")
    case True
    with L_next show ?thesis
      by (intro setup_inv_append [OF assms, of _ "[Wait (ret l (length (d_calls s)))
     (map snd (take (if ret l (length (d_calls s)) < 0 then 0 else length (d_inflight s)) (d_inflight s)))]"])
         (auto simp: step_def Let_def wait_props)
  next
    case False
    with L_next show ?thesis
      by (intro setup_inv_append [OF assms, of _ "[]"]) (auto simp: step_def)
  qed
next
  case L_after
  then show ?thesis
    by (intro setup_inv_append [OF assms, of _ "[Wait (ret l (length (d_calls s)))
     (map snd (take (if ret l (length (d_calls s)) < 0 then 0 else length (d_inflight s)) (d_inflight s)))]"])
       (auto simp: step_def Let_def wait_props split: option.splits)
next
  case L_exit
  with assms show ?thesis by (simp add: step_def)
next
  case L_trap
  with assms show ?thesis by (simp add: step_def)
qed

lemma setup_inv_run: "setup_inv (queue_depth qdepth) (run op l qdepth zone_zcap n)"
proof (rule run_induct)
  show "setup_inv (queue_depth qdepth) drive_start"
    by (rule setup_invI [of _ "[]" "[]"]) (simp_all add: drive_start_def)
qed (rule setup_inv_step)

lemma unat_plus_one: "w \<noteq> - 1 \<Longrightarrow> unat (w + 1) = unat w + 1" for w :: "32 word"
proof -
  assume "w \<noteq> - 1"
  then have "1 + w \<noteq> 0" by (simp add: eq_neg_iff_add_eq_0 add.commute)
  then have "unat (1 + w) = Suc (unat w)" by (rule unatSuc)
  then show ?thesis by (simp add: add.commute)
qed

text \<open>
  Claim C9.  Both source files allocate the request pool in one call of
  \<^verbatim>\<open>xnvme_req_pool_alloc\<close>, made once, right after the context has been initialised
  with the queue depth, and with a capacity of the queue depth plus one.
  \<^item> The engine: when \<^verbatim>\<open>_dev_open\<close> returns 0 its calls are the opening of the
    device, the initialisation of the context with depth \<^verbatim>\<open>td->o.iodepth\<close>, the
    allocation of the pool with capacity \<^verbatim>\<open>td->o.iodepth + 1\<close> and the
    initialisation of the pool; and no allocation it ever makes has another capacity.
  \<^item> The example, for each of the three commands and at every step of a run: the calls that
    set up the context come before any call of the loop, the loop runs only after the
    initialisation of the context with depth \<^verbatim>\<open>qd\<close>, the allocation with capacity
    \<^verbatim>\<open>qd + 1\<close> and the initialisation of the pool, and the free list then holds as
    many request handles as that capacity.
  \<^item> The sum is that of \<^verbatim>\<open>unsigned int\<close>: it is the queue depth plus one unless the
    depth is the largest value of the type.
\<close>

theorem pool_capacity_depth_plus_one:
  "(fst (dev_open env be_too_long hipri sqpoll_thread iopoll sqpoll fno nalloc iodepth) = 0 \<longrightarrow>
      (\<exists>flags. snd (dev_open env be_too_long hipri sqpoll_thread iopoll sqpoll fno nalloc iodepth) =
         [Dev_open, Async_init iodepth flags, Req_pool_alloc (iodepth + 1), Req_pool_init])) \<and>
   (\<forall>cap. Req_pool_alloc cap \<in> set (snd (dev_open env be_too_long hipri sqpoll_thread iopoll sqpoll fno nalloc iodepth))
      \<longrightarrow> cap = iodepth + 1) \<and>
   setup_inv (queue_depth qdepth) (run op l qdepth zone_zcap n) \<and>
   (d_pc (run op l qdepth zone_zcap n) \<in> {L_for, L_submit, L_next, L_after} \<longrightarrow>
      take 3 (d_calls (run op l qdepth zone_zcap n)) =
        [Async_init (queue_depth qdepth) 0, Req_pool_alloc (queue_depth qdepth + 1), Req_pool_init]) \<and>
   (d_pc (run op l qdepth zone_zcap 1) = L_for \<longrightarrow>
      length (d_head (run op l qdepth zone_zcap 1)) = unat (queue_depth qdepth + 1)) \<and>
   (iodepth \<noteq> - 1 \<longrightarrow> unat (iodepth + 1) = unat iodepth + 1)"
proof (intro conjI impI allI)
  assume "fst (dev_open env be_too_long hipri sqpoll_thread iopoll sqpoll fno nalloc iodepth) = 0"
  then show "\<exists>flags. snd (dev_open env be_too_long hipri sqpoll_thread iopoll sqpoll fno nalloc iodepth) =
         [Dev_open, Async_init iodepth flags, Req_pool_alloc (iodepth + 1), Req_pool_init]"
    by (simp add: dev_open_def Let_def split: if_splits)
next
  fix cap
  assume "Req_pool_alloc cap \<in> set (snd (dev_open env be_too_long hipri sqpoll_thread iopoll sqpoll fno nalloc iodepth))"
  then show "cap = iodepth + 1"
    by (simp add: dev_open_def Let_def split: if_splits)
next
  show "setup_inv (queue_depth qdepth) (run op l qdepth zone_zcap n)"
    by (rule setup_inv_run)
next
  assume pc: "d_pc (run op l qdepth zone_zcap n) \<in> {L_for, L_submit, L_next, L_after}"
  from setup_inv_run [of qdepth op l zone_zcap n] pc
  obtain rest where "d_calls (run op l qdepth zone_zcap n) =
     [Async_init (queue_depth qdepth) 0, Req_pool_alloc (queue_depth qdepth + 1), Req_pool_init] @ rest"
    unfolding setup_inv_def by blast
  then show "take 3 (d_calls (run op l qdepth zone_zcap n)) =
        [Async_init (queue_depth qdepth) 0, Req_pool_alloc (queue_depth qdepth + 1), Req_pool_init]"
    by simp
next
  assume "d_pc (run op l qdepth zone_zcap 1) = L_for"
  then show "length (d_head (run op l qdepth zone_zcap 1)) = unat (queue_depth qdepth + 1)"
    by (simp add: step_def drive_start_def init_ctx_def split: if_splits)
next
  assume "iodepth \<noteq> - 1"
  then show "unat (iodepth + 1) = unat iodepth + 1" by (rule unat_plus_one)
qed

theorem pool_capacity_depth_plus_one_witness:
  "dev_open open_ok False False 0 1 2 0 1 8 =
     (0, [Dev_open, Async_init 8 0, Req_pool_alloc 9, Req_pool_init]) \<and>
   d_pc (run Read lib_ok 2 2 2) = L_submit \<and>
   take 3 (d_calls (run Read lib_ok 2 2 2)) = [Async_init 2 0, Req_pool_alloc 3, Req_pool_init] \<and>
   d_pc (run Read lib_ok 2 2 1) = L_for \<and> length (d_head (run Read lib_ok 2 2 1)) = 3 \<and>
   unat ((8 :: 32 word) + 1) = 9"
proof -
  have a: "dev_open open_ok False False 0 1 2 0 1 8 =
     (0, [Dev_open, Async_init 8 0, Req_pool_alloc 9, Req_pool_init])"
    by (simp add: dev_open_def open_ok_def)
  have b: "d_pc (run Read lib_ok 2 2 2) = L_submit" by code_simp
  have c: "d_pc (run Read lib_ok 2 2 1) = L_for" by code_simp
  have q: "queue_depth 2 = 2" by (simp add: queue_depth_def)
  from pool_capacity_depth_plus_one [of open_ok False False 0 1 2 0 1 8 2 Read lib_ok 2 2] a b c q
  show ?thesis by simp
qed

subsection \<open>The backpressure loop\<close>

lemma retry_append_other:
  assumes b: "busy_retry tr" and n: "last_not_busy tr" and p: "\<forall>x r. \<not> pending tr x r"
    and c: "\<forall>x r e. c = Submit x r e \<longrightarrow> \<not> is_busy e"
  shows "busy_retry (tr @ [c]) \<and> last_not_busy (tr @ [c]) \<and> (\<forall>x r. \<not> pending (tr @ [c]) x r)"
proof (intro conjI)
  show "busy_retry (tr @ [c])"
    unfolding busy_retry_def
  proof (intro allI impI)
    fix i x r e
    assume i: "i < length (tr @ [c])" and s: "(tr @ [c]) ! i = Submit x r e \<and> is_busy e"
    have "i \<noteq> length tr" using s c by (auto simp: nth_append)
    with i have il: "i < length tr" by simp
    with s have si: "tr ! i = Submit x r e \<and> is_busy e" by (simp add: nth_append)
    with b il have n1: "Suc i < length tr" "\<exists>cs. tr ! Suc i = Poke cs"
      and n2: "Suc (Suc i) < length tr \<longrightarrow> (\<exists>e'. tr ! Suc (Suc i) = Submit x r e')"
      unfolding busy_retry_def by blast+
    have "Suc (Suc i) \<noteq> length tr"
    proof
      assume "Suc (Suc i) = length tr"
      then have "2 \<le> length tr" "length tr - 2 = i" by simp_all
      with si have "pending tr x r" unfolding pending_def by blast
      with p show False by blast
    qed
    with n1 n2 show "(Suc i < length (tr @ [c]) \<and> (\<exists>cs. (tr @ [c]) ! Suc i = Poke cs)) \<and>
        (Suc (Suc i) < length (tr @ [c]) \<longrightarrow> (\<exists>e'. (tr @ [c]) ! Suc (Suc i) = Submit x r e'))"
      by (auto simp: nth_append)
  qed
  show "last_not_busy (tr @ [c])" using c by (simp add: last_not_busy_def)
  show "\<forall>x r. \<not> pending (tr @ [c]) x r"
  proof (intro allI notI)
    fix x r assume "pending (tr @ [c]) x r"
    then obtain e where l: "1 \<le> length tr" and e: "(tr @ [c]) ! (length tr - 1) = Submit x r e" "is_busy e"
      unfolding pending_def by auto
    from l have lt: "length tr - 1 < length tr" "tr \<noteq> []" by auto
    with e have "last tr = Submit x r e" "tr \<noteq> []"
      by (simp_all add: nth_append last_conv_nth)
    with n e show False unfolding last_not_busy_def by blast
  qed
qed

lemma retry_old:
  assumes b: "busy_retry tr" and n: "last_not_busy tr"
    and p: "\<forall>x' r'. pending tr x' r' \<longrightarrow> x' = x \<and> r' = r"
    and i: "i < length tr" and s: "tr ! i = Submit x' r' e'" "is_busy e'"
  shows "Suc i < length tr \<and> (\<exists>cs. tr ! Suc i = Poke cs) \<and>
     (Suc (Suc i) < length tr \<and> (\<exists>e''. tr ! Suc (Suc i) = Submit x' r' e'') \<or>
      Suc (Suc i) = length tr \<and> x' = x \<and> r' = r)"
proof -
  from b i s have n1: "Suc i < length tr" "\<exists>cs. tr ! Suc i = Poke cs"
    and n2: "Suc (Suc i) < length tr \<longrightarrow> (\<exists>e''. tr ! Suc (Suc i) = Submit x' r' e'')"
    unfolding busy_retry_def by blast+
  show ?thesis
  proof (cases "Suc (Suc i) = length tr")
    case True
    then have "2 \<le> length tr" "length tr - 2 = i" by simp_all
    with s have "pending tr x' r'" unfolding pending_def by blast
    with p True n1 show ?thesis by simp
  next
    case False
    with n1 have "Suc (Suc i) < length tr" by simp
    with n1 n2 show ?thesis by simp
  qed
qed

lemma last_not_busy_nth:
  "last_not_busy tr \<Longrightarrow> tr \<noteq> [] \<Longrightarrow> tr ! (length tr - 1) = Submit x r e \<Longrightarrow> \<not> is_busy e"
  unfolding last_not_busy_def by (simp add: last_conv_nth)

lemma retry_append_submit:
  assumes b: "busy_retry tr" and n: "last_not_busy tr"
    and p: "\<forall>x' r'. pending tr x' r' \<longrightarrow> x' = x \<and> r' = r"
    and e: "\<not> is_busy e"
  shows "busy_retry (tr @ [Submit x r e]) \<and> last_not_busy (tr @ [Submit x r e]) \<and>
     (\<forall>x' r'. \<not> pending (tr @ [Submit x r e]) x' r')"
proof (intro conjI)
  let ?tr = "tr @ [Submit x r e]"
  show "busy_retry ?tr"
    unfolding busy_retry_def
  proof (intro allI impI)
    fix i x' r' e'
    assume i: "i < length ?tr" and s: "?tr ! i = Submit x' r' e' \<and> is_busy e'"
    have "i \<noteq> length tr" using s e by (auto simp: nth_append)
    with i have il: "i < length tr" by simp
    with s have si: "tr ! i = Submit x' r' e'" "is_busy e'" by (simp_all add: nth_append)
    from retry_old [OF b n p il si]
    show "(Suc i < length ?tr \<and> (\<exists>cs. ?tr ! Suc i = Poke cs)) \<and>
        (Suc (Suc i) < length ?tr \<longrightarrow> (\<exists>e''. ?tr ! Suc (Suc i) = Submit x' r' e''))"
      by (auto simp: nth_append)
  qed
  show "last_not_busy ?tr" using e by (simp add: last_not_busy_def)
  show "\<forall>x' r'. \<not> pending ?tr x' r'"
  proof (intro allI notI)
    fix x' r' assume "pending ?tr x' r'"
    then obtain e' where l: "1 \<le> length tr" and e': "?tr ! (length tr - 1) = Submit x' r' e'" "is_busy e'"
      unfolding pending_def by auto
    from l have lt: "length tr - 1 < length tr" "tr \<noteq> []" by auto
    with e' have "tr ! (length tr - 1) = Submit x' r' e'" by (simp add: nth_append)
    from last_not_busy_nth [OF n lt(2) this] e' show False by simp
  qed
qed

lemma retry_append_busy:
  assumes b: "busy_retry tr" and n: "last_not_busy tr"
    and p: "\<forall>x' r'. pending tr x' r' \<longrightarrow> x' = x \<and> r' = r"
  shows "busy_retry (tr @ [Submit x r e, Poke cs]) \<and> last_not_busy (tr @ [Submit x r e, Poke cs]) \<and>
     (\<forall>x' r'. pending (tr @ [Submit x r e, Poke cs]) x' r' \<longrightarrow> x' = x \<and> r' = r)"
proof (intro conjI)
  let ?tr = "tr @ [Submit x r e, Poke cs]"
  show "busy_retry ?tr"
    unfolding busy_retry_def
  proof (intro allI impI)
    fix i x' r' e'
    assume i: "i < length ?tr" and s: "?tr ! i = Submit x' r' e' \<and> is_busy e'"
    show "(Suc i < length ?tr \<and> (\<exists>cs. ?tr ! Suc i = Poke cs)) \<and>
        (Suc (Suc i) < length ?tr \<longrightarrow> (\<exists>e''. ?tr ! Suc (Suc i) = Submit x' r' e''))"
    proof (cases "i < length tr")
      case True
      with s have si: "tr ! i = Submit x' r' e'" "is_busy e'" by (simp_all add: nth_append)
      from retry_old [OF b n p True si] show ?thesis
        by (auto simp: nth_append)
    next
      case False
      with i have "i = length tr \<or> i = Suc (length tr)" by auto
      with s have "i = length tr" by (auto simp: nth_append)
      then show ?thesis by (simp add: nth_append)
    qed
  qed
  show "last_not_busy ?tr" by (simp add: last_not_busy_def)
  show "\<forall>x' r'. pending ?tr x' r' \<longrightarrow> x' = x \<and> r' = r"
    by (simp add: pending_def nth_append)
qed

lemma foldl_cb_pool_drive_ecount:
  "d_ecount (foldl cb_pool_drive s cs) = d_ecount s + length (filter (\<lambda>st. st \<noteq> 0) (map snd cs))"
  by (induction cs arbitrary: s) (simp_all add: cb_pool_drive_def)

lemma complete_ecount:
  "d_ecount (complete k s) =
     d_ecount s + length (filter (\<lambda>st. st \<noteq> 0) (map snd (take k (d_inflight s))))"
  by (simp add: complete_def foldl_cb_pool_drive_ecount)

lemma err_count_append: "err_count (tr @ new) = err_count tr + err_count new"
  by (simp add: err_count_def)

lemma wait_step:
  assumes inv: "retry_inv s" and pc: "d_pc s \<noteq> L_submit" "d_pc s \<noteq> L_init"
    and s': "d_calls s' = d_calls (wait l s)" "d_ecount s' = d_ecount (wait l s)"
      "d_pc s' \<noteq> L_submit" "d_pc s' \<noteq> L_init"
  shows "retry_inv s'"
proof -
  let ?k = "if ret l (length (d_calls s)) < 0 then 0 else length (d_inflight s)"
  let ?c = "Wait (ret l (length (d_calls s))) (map snd (take ?k (d_inflight s)))"
  from inv pc have np: "\<forall>x r. \<not> pending (d_calls s) x r" unfolding retry_inv_def by blast
  from inv have b: "busy_retry (d_calls s)" "last_not_busy (d_calls s)"
    "d_ecount s = err_count (d_calls s)"
    unfolding retry_inv_def by blast+
  have c: "d_calls s' = d_calls s @ [?c]" using s'(1) by (simp add: wait_props)
  have e: "d_ecount s' = err_count (d_calls s @ [?c])"
    using s'(2) b(3) by (simp add: wait_def Let_def complete_ecount err_count_append err_count_def)
  from retry_append_other [OF b(1,2) np, of ?c] c e s'(3,4) show ?thesis
    unfolding retry_inv_def by simp
qed

lemma retry_inv_step:
  assumes inv: "retry_inv s"
  shows "retry_inv (step op l qdepth zone_zcap s)"
proof (cases "d_pc s")
  case L_init
  with inv have "d_calls s = []" "d_ecount s = 0"
    unfolding retry_inv_def by (simp_all add: err_count_def)
  with L_init show ?thesis
    by (simp add: retry_inv_def step_def init_ctx_def busy_retry_def last_not_busy_def
        pending_def err_count_def nth_Cons' less_Suc_eq)
next
  case L_for
  with inv have "\<forall>x r. \<not> pending (d_calls s) x r" unfolding retry_inv_def by auto
  with inv L_for show ?thesis
    by (auto simp: retry_inv_def step_def split: list.splits)
next
  case L_submit
  let ?s1 = "submit l (queue_depth qdepth) s"
  note sp = submit_props [where l = l and qd = "queue_depth qdepth" and s = s]
  from inv have b: "busy_retry (d_calls s)" "last_not_busy (d_calls s)"
    "d_ecount s = err_count (d_calls s)"
    and p: "\<forall>x' r'. pending (d_calls s) x' r' \<longrightarrow> x' = d_sect s \<and> r' = d_req s"
    unfolding retry_inv_def by blast+
  show ?thesis
  proof (cases "is_busy (d_err ?s1)")
    case True
    then have nz: "d_err ?s1 \<noteq> 0" by (auto simp: is_busy_def EBUSY_def EAGAIN_def)
    let ?cs = "map snd (take (min (ndone l (length (d_calls ?s1))) (length (d_inflight ?s1))) (d_inflight ?s1))"
    from True nz L_submit have st: "step op l qdepth zone_zcap s = poke l ?s1"
      by (simp add: step_def Let_def is_busy_def)
    define s' where "s' = poke l ?s1"
    have c: "d_calls s' = d_calls s @ [Submit (d_sect s) (d_req s) (d_err ?s1), Poke ?cs]"
      by (simp add: s'_def poke_props sp)
    have "d_ecount s' = err_count (d_calls s @ [Submit (d_sect s) (d_req s) (d_err ?s1), Poke ?cs])"
      using b(3) by (simp add: s'_def poke_def Let_def complete_ecount err_count_append err_count_def sp)
    then have e: "d_ecount s' = err_count (d_calls s')" by (simp only: c)
    have f: "d_pc s' = L_submit" "d_sect s' = d_sect s" "d_req s' = d_req s"
      using L_submit by (simp_all add: s'_def poke_props sp)
    from retry_append_busy [OF b(1,2) p, of "d_err ?s1" ?cs]
    have r: "busy_retry (d_calls s')" "last_not_busy (d_calls s')"
      "\<forall>x' r'. pending (d_calls s') x' r' \<longrightarrow> x' = d_sect s \<and> r' = d_req s"
      unfolding c by blast+
    have "retry_inv s'"
      unfolding retry_inv_def using r e f by simp
    then show ?thesis by (simp only: st s'_def)
  next
    case False
    have c: "d_calls ?s1 = d_calls s @ [Submit (d_sect s) (d_req s) (d_err ?s1)]"
      by (simp add: sp)
    have e: "d_ecount ?s1 = err_count (d_calls s @ [Submit (d_sect s) (d_req s) (d_err ?s1)])"
      using b(3) by (simp add: sp err_count_append err_count_def)
    from False L_submit have "step op l qdepth zone_zcap s = ?s1\<lparr>d_submitted := d_submitted ?s1 + 1, d_pc := L_next\<rparr>
       \<or> step op l qdepth zone_zcap s = ?s1\<lparr>d_pc := L_exit\<rparr>"
      by (simp add: step_def Let_def is_busy_def)
    with retry_append_submit [OF b(1,2) p False] c e show ?thesis
      unfolding retry_inv_def by auto
  qed
next
  case L_next
  show ?thesis
  proof (cases "op = Write")
    case True
    with L_next show ?thesis
      by (intro wait_step [OF inv, of _ l]) (auto simp: step_def Let_def)
  next
    case False
    from inv L_next have "\<forall>x r. \<not> pending (d_calls s) x r" unfolding retry_inv_def by auto
    with inv L_next False show ?thesis
      by (auto simp: retry_inv_def step_def)
  qed
next
  case L_after
  then show ?thesis
    by (intro wait_step [OF inv, of _ l]) (auto simp: step_def Let_def split: option.splits)
next
  case L_exit
  with inv show ?thesis by (simp add: step_def)
next
  case L_trap
  with inv show ?thesis by (simp add: step_def)
qed

lemma retry_inv_run: "retry_inv (run op l qdepth zone_zcap n)"
proof (rule run_induct)
  show "retry_inv drive_start"
    by (simp add: retry_inv_def drive_start_def busy_retry_def last_not_busy_def pending_def err_count_def)
qed (rule retry_inv_step)

text \<open>
  Claim C7.  At every step of a run of the example, for each of the three commands and
  whatever the library answers: every submission answered \<^verbatim>\<open>-EBUSY\<close> or
  \<^verbatim>\<open>-EAGAIN\<close> is followed at once by a poke of the context, and what follows the poke
  is a submission of the same sector with the same request handle; after that poke control is
  at the label \<^verbatim>\<open>submit\<close> with \<^verbatim>\<open>sect\<close> and \<^verbatim>\<open>req\<close> unchanged, so the
  function is never at \<^verbatim>\<open>exit\<close> with a busy answer as its result; and the count of
  errors is the number of completions with a non-zero status, to which a busy answer adds
  nothing.
\<close>

theorem busy_submission_poked_and_retried:
  "busy_retry (d_calls (run op l qdepth zone_zcap n)) \<and>
   last_not_busy (d_calls (run op l qdepth zone_zcap n)) \<and>
   (\<forall>x r. pending (d_calls (run op l qdepth zone_zcap n)) x r \<longrightarrow>
      d_pc (run op l qdepth zone_zcap n) = L_submit \<and>
      d_sect (run op l qdepth zone_zcap n) = x \<and> d_req (run op l qdepth zone_zcap n) = r) \<and>
   d_ecount (run op l qdepth zone_zcap n) = err_count (d_calls (run op l qdepth zone_zcap n))"
  using retry_inv_run [of op l qdepth zone_zcap n]
  unfolding retry_inv_def by blast

theorem busy_submission_poked_and_retried_witness:
  "d_calls (run Read lib_busy 1 3 7) =
     [Async_init 1 0, Req_pool_alloc 2, Req_pool_init,
      Submit 0 0 0, Submit 1 1 (- 16), Poke [0], Submit 1 1 0] \<and>
   is_busy (- 16) \<and>
   busy_retry (d_calls (run Read lib_busy 1 3 7)) \<and>
   pending (d_calls (run Read lib_busy 1 3 6)) 1 1 \<and>
   d_pc (run Read lib_busy 1 3 6) = L_submit \<and>
   d_ecount (run Read lib_busy 1 3 7) = 0"
proof -
  have c: "d_calls (run Read lib_busy 1 3 7) =
     [Async_init 1 0, Req_pool_alloc 2, Req_pool_init,
      Submit 0 0 0, Submit 1 1 (- 16), Poke [0], Submit 1 1 0]"
    by code_simp
  have d: "d_calls (run Read lib_busy 1 3 6) =
     [Async_init 1 0, Req_pool_alloc 2, Req_pool_init,
      Submit 0 0 0, Submit 1 1 (- 16), Poke [0]]"
    by code_simp
  have b: "is_busy (- 16)" by (simp add: is_busy_def EBUSY_def)
  have p: "pending (d_calls (run Read lib_busy 1 3 6)) 1 1"
    unfolding d pending_def using b by simp
  from busy_submission_poked_and_retried [of Read lib_busy 1 3 7]
    busy_submission_poked_and_retried [of Read lib_busy 1 3 6] b c p
  show ?thesis by (simp add: err_count_def)
qed

end
